theory Spec2Isabelle
  imports Main "HOL-Library.Multiset"
begin

section \<open>Data model\<close>

text \<open>
  Timestamps are ticks of an abstract clock. Every model of the repository inherits the
  fields of \<^verbatim>\<open>TimeStampedModel\<close> and \<^verbatim>\<open>SoftDeleteModel\<close> (core/models.py); the
  primary key is \<open>None\<close> on an instance that was never saved. A table is the list of its
  rows in the order they were inserted; the ordering of a queryset is applied where the
  code slices it.
\<close>

type_synonym datetime = nat

record entity =
  pk :: "nat option"
  created_at :: datetime
  updated_at :: datetime
  is_deleted :: bool
  deleted_at :: "datetime option"

record article = entity +
  title :: string
  slug :: string
  content :: string
  excerpt :: string
  author :: nat
  is_published :: bool
  views_count :: int
  tags :: string

record comment = entity +
  article :: nat
  content :: string
  author :: nat
  parent :: "nat option"

datatype error =
    ValidationError string
  | ValueError
  | DatabaseError
  | IntegrityError
  | DoesNotExist
  | CacheError string

section \<open>Python's \<open>str\<close> on integers\<close>

definition digit_char :: "nat \<Rightarrow> char" where
  "digit_char d = char_of (48 + d)"

fun str_nat :: "nat \<Rightarrow> string" where
  "str_nat n = (if n < 10 then [digit_char n] else str_nat (n div 10) @ [digit_char (n mod 10)])"

declare str_nat.simps [simp del]

text \<open>The decimal representation is injective; the slug loop terminates because of it.\<close>

lemma digit_char_inj: "a < 10 \<Longrightarrow> b < 10 \<Longrightarrow> digit_char a = digit_char b \<Longrightarrow> a = b"
  by (simp add: digit_char_def char_of_eq_iff take_bit_eq_mod)

lemma str_nat_length: "Suc 0 \<le> length (str_nat n)"
  by (subst str_nat.simps) simp

lemma str_nat_length_ge10: "10 \<le> n \<Longrightarrow> 2 \<le> length (str_nat n)"
  using str_nat_length [of "n div 10"] by (subst str_nat.simps) (simp del: One_nat_def)

lemma str_nat_inj: "str_nat m = str_nat n \<Longrightarrow> m = n"
proof (induction m arbitrary: n rule: str_nat.induct)
  case (1 m)
  show ?case
  proof (cases "m < 10")
    case True
    then have lm: "length (str_nat m) = 1" by (subst str_nat.simps) simp
    have "n < 10"
    proof (rule ccontr)
      assume "\<not> n < 10"
      then have "2 \<le> length (str_nat n)" by (simp add: str_nat_length_ge10)
      with lm "1.prems" show False by simp
    qed
    with True "1.prems" show ?thesis
      by (simp add: str_nat.simps [of m] str_nat.simps [of n] digit_char_inj)
  next
    case False
    then have lm: "2 \<le> length (str_nat m)" by (simp add: str_nat_length_ge10)
    have nn: "\<not> n < 10"
    proof
      assume "n < 10"
      then have "length (str_nat n) = 1" by (subst str_nat.simps) simp
      with lm "1.prems" show False by simp
    qed
    from False nn "1.prems"
    have eq: "str_nat (m div 10) @ [digit_char (m mod 10)] = str_nat (n div 10) @ [digit_char (n mod 10)]"
      by (simp add: str_nat.simps [of m] str_nat.simps [of n])
    then have "str_nat (m div 10) = str_nat (n div 10)" and d: "digit_char (m mod 10) = digit_char (n mod 10)"
      by simp_all
    with "1.IH" False have q: "m div 10 = n div 10" by blast
    from d have r: "m mod 10 = n mod 10" by (intro digit_char_inj) simp_all
    from q r show ?thesis by (metis div_mult_mod_eq)
  qed
qed

section \<open>Visibility managers\<close>

text \<open>
  \<^verbatim>\<open>models.Manager().get_queryset()\<close> is every row of the table;
  \<^verbatim>\<open>ActiveObjectsManager\<close> (core/models.py) and \<^verbatim>\<open>PublishedArticleManager\<close>
  (apps/content/models.py) filter it.
\<close>

definition Manager_get_queryset :: "'a list \<Rightarrow> 'a list" where
  "Manager_get_queryset tbl = tbl"

definition ActiveObjectsManager_get_queryset :: "'a entity_scheme list \<Rightarrow> 'a entity_scheme list" where
  "ActiveObjectsManager_get_queryset tbl =
     filter (\<lambda>r. is_deleted r = False) (Manager_get_queryset tbl)"

definition PublishedArticleManager_get_queryset :: "article list \<Rightarrow> article list" where
  "PublishedArticleManager_get_queryset tbl =
     filter (\<lambda>a. is_published a = True \<and> is_deleted a = False) (Manager_get_queryset tbl)"

text \<open>
  \<^verbatim>\<open>Meta.ordering = ['-created_at']\<close> of both models: a queryset is read newest first.
  Rows with the same \<open>created_at\<close> keep their table order here; the database leaves
  their order open.
\<close>

definition Meta_ordering :: "'a entity_scheme list \<Rightarrow> 'a entity_scheme list" where
  "Meta_ordering rows = sort_key (\<lambda>r. - int (created_at r)) rows"

section \<open>Comment threading\<close>

definition is_reply :: "comment \<Rightarrow> bool" where
  "is_reply self = (parent self \<noteq> None)"

text \<open>
  \<^verbatim>\<open>obj.replies\<close> is the reverse side of the \<^verbatim>\<open>parent\<close> foreign key: the comment rows
  whose \<^verbatim>\<open>parent_id\<close> is the primary key of \<^verbatim>\<open>obj\<close>. The relation cannot be used on
  an instance without a primary key.
\<close>

definition replies :: "comment list \<Rightarrow> comment \<Rightarrow> error + comment list" where
  "replies tbl obj =
     (case pk obj of
        None \<Rightarrow> Inl ValueError
      | Some i \<Rightarrow> Inr (filter (\<lambda>c. parent c = Some i) (Manager_get_queryset tbl)))"

text \<open>
  \<^verbatim>\<open>CommentListSerializer\<close> renders the fields id, content, author and created_at; the
  author is a \<^verbatim>\<open>StringRelatedField\<close>, rendered by the user's \<^verbatim>\<open>__str__\<close>, which is a
  parameter here (the \<^verbatim>\<open>User\<close> model belongs to the framework).
\<close>

record comment_list_item =
  item_id :: "nat option"
  item_content :: string
  item_author :: string
  item_created_at :: datetime

definition CommentListSerializer :: "(nat \<Rightarrow> string) \<Rightarrow> comment \<Rightarrow> comment_list_item" where
  "CommentListSerializer user_str c =
     \<lparr>item_id = pk c, item_content = comment.content c,
      item_author = user_str (comment.author c), item_created_at = created_at c\<rparr>"

definition get_replies :: "(nat \<Rightarrow> string) \<Rightarrow> comment list \<Rightarrow> comment \<Rightarrow> error + comment_list_item list" where
  "get_replies user_str tbl obj =
     (if is_reply obj then Inr []
      else (case replies tbl obj of
              Inl e \<Rightarrow> Inl e
            | Inr rs \<Rightarrow>
                Inr (map (CommentListSerializer user_str)
                       (take 5 (Meta_ordering (filter (\<lambda>c. is_deleted c = False) rs))))))"

section \<open>Slug allocator\<close>

text \<open>
  \<^verbatim>\<open>Article.objects.filter(slug=slug).exists()\<close> looks at every row, soft-deleted ones
  included: \<^verbatim>\<open>objects\<close> is the unfiltered manager.
\<close>

definition slug_exists :: "article list \<Rightarrow> string \<Rightarrow> bool" where
  "slug_exists tbl s = (filter (\<lambda>a. slug a = s) (Manager_get_queryset tbl) \<noteq> [])"

lemma slug_exists_iff: "slug_exists tbl s = (s \<in> slug ` set tbl)"
  by (auto simp: slug_exists_def Manager_get_queryset_def filter_empty_conv)

lemma finite_probes: "finite {k. c \<le> k \<and> slug_exists tbl (b @ ''-'' @ str_nat k)}"
proof -
  have inj: "inj (\<lambda>k. b @ ''-'' @ str_nat k)"
    by (rule injI) (simp add: str_nat_inj)
  have "finite ((\<lambda>k. b @ ''-'' @ str_nat k) -` (slug ` set tbl))"
    by (rule finite_vimageI [OF _ inj]) simp
  moreover have "{k. c \<le> k \<and> slug_exists tbl (b @ ''-'' @ str_nat k)}
                   \<subseteq> (\<lambda>k. b @ ''-'' @ str_nat k) -` (slug ` set tbl)"
    by (auto simp: slug_exists_iff)
  ultimately show ?thesis by (rule rev_finite_subset)
qed

definition probes_left :: "article list \<Rightarrow> string \<Rightarrow> nat \<Rightarrow> nat" where
  "probes_left tbl b c = card {k. c \<le> k \<and> slug_exists tbl (b @ ''-'' @ str_nat k)}"

lemma probes_left_used:
  assumes "slug_exists tbl (b @ ''-'' @ str_nat c)"
  shows "probes_left tbl b (Suc c) < probes_left tbl b c"
proof -
  have "{k. Suc c \<le> k \<and> slug_exists tbl (b @ ''-'' @ str_nat k)}
          \<subset> {k. c \<le> k \<and> slug_exists tbl (b @ ''-'' @ str_nat k)}"
  proof (rule psubsetI)
    show "{k. Suc c \<le> k \<and> slug_exists tbl (b @ ''-'' @ str_nat k)}
            \<subseteq> {k. c \<le> k \<and> slug_exists tbl (b @ ''-'' @ str_nat k)}"
      by auto
    have "c \<in> {k. c \<le> k \<and> slug_exists tbl (b @ ''-'' @ str_nat k)}"
      using assms by simp
    moreover have "c \<notin> {k. Suc c \<le> k \<and> slug_exists tbl (b @ ''-'' @ str_nat k)}"
      by simp
    ultimately show "{k. Suc c \<le> k \<and> slug_exists tbl (b @ ''-'' @ str_nat k)}
            \<noteq> {k. c \<le> k \<and> slug_exists tbl (b @ ''-'' @ str_nat k)}"
      by blast
  qed
  then show ?thesis
    unfolding probes_left_def by (intro psubset_card_mono finite_probes)
qed

lemma probes_left_unused:
  assumes "\<not> slug_exists tbl (b @ ''-'' @ str_nat c)"
  shows "probes_left tbl b (Suc c) = probes_left tbl b c"
proof -
  have "{k. Suc c \<le> k \<and> slug_exists tbl (b @ ''-'' @ str_nat k)}
          = {k. c \<le> k \<and> slug_exists tbl (b @ ''-'' @ str_nat k)}"
    using assms by (auto simp: Suc_le_eq) (metis le_neq_implies_less)
  then show ?thesis by (simp add: probes_left_def)
qed

text \<open>
  The loop of \<^verbatim>\<open>_generate_unique_slug\<close>, with its three local variables. It stops
  because the table is finite and the probes \<open>base-1\<close>, \<open>base-2\<close>, ... are pairwise
  different: \<open>probes_left\<close> counts the used probes from \<open>counter\<close> on.
\<close>

function generate_loop :: "article list \<Rightarrow> string \<Rightarrow> string \<Rightarrow> nat \<Rightarrow> string" where
  "generate_loop tbl base_slug slg counter =
     (if slug_exists tbl slg
      then generate_loop tbl base_slug (base_slug @ ''-'' @ str_nat counter) (counter + 1)
      else slg)"
  by pat_completeness auto
termination
proof (relation "measure (\<lambda>(tbl, b, s, c). 2 * probes_left tbl b c + (if slug_exists tbl s then 1 else 0))")
  show "wf (measure (\<lambda>(tbl, b, s, c). 2 * probes_left tbl b c + (if slug_exists tbl s then 1 else 0)))"
    by simp
next
  fix tbl :: "article list" and base_slug slg :: string and counter :: nat
  assume "slug_exists tbl slg"
  then show "((tbl, base_slug, base_slug @ ''-'' @ str_nat counter, counter + 1), (tbl, base_slug, slg, counter))
      \<in> measure (\<lambda>(tbl, b, s, c). 2 * probes_left tbl b c + (if slug_exists tbl s then 1 else 0))"
    using probes_left_used [of tbl base_slug counter] probes_left_unused [of tbl base_slug counter]
    by (cases "slug_exists tbl (base_slug @ ''-'' @ str_nat counter)") simp_all
qed

declare generate_loop.simps [simp del]

text \<open>
  \<^verbatim>\<open>slugify\<close> is imported from \<^verbatim>\<open>django.utils.text\<close>; the normalizer is a parameter
  of the model.
\<close>

definition generate_unique_slug :: "(string \<Rightarrow> string) \<Rightarrow> article list \<Rightarrow> article \<Rightarrow> string" where
  "generate_unique_slug slugify tbl self =
     (let base_slug = slugify (title self) in generate_loop tbl base_slug base_slug 1)"

section \<open>Serializer validation\<close>

text \<open>
  \<^verbatim>\<open>title__iexact\<close> compares without regard to the case of the letters A to Z.
\<close>

definition lower_char :: "char \<Rightarrow> char" where
  "lower_char c =
     (let n = (of_char c :: nat) in if 65 \<le> n \<and> n \<le> 90 then char_of (n + 32) else c)"

definition iexact :: "string \<Rightarrow> string \<Rightarrow> bool" where
  "iexact a b = (map lower_char a = map lower_char b)"

definition title_too_short :: string where
  "title_too_short = ''Title must be at least 3 characters long.''"

definition title_duplicate :: string where
  "title_duplicate = ''An article with this title already exists.''"

text \<open>
  \<^verbatim>\<open>ArticleCreateUpdateSerializer.validate_title\<close>: \<open>instance\<close> is the article being
  updated, \<open>None\<close> on create.
\<close>

definition validate_title :: "article list \<Rightarrow> article option \<Rightarrow> string \<Rightarrow> error + string" where
  "validate_title tbl instance val =
     (if length val < 3 then Inl (ValidationError title_too_short)
      else
        let qs = filter (\<lambda>a. iexact (title a) val \<and> is_deleted a = False)
                   (Manager_get_queryset tbl);
            qs' = (case instance of
                     Some i \<Rightarrow> filter (\<lambda>a. pk a \<noteq> pk i) qs
                   | None \<Rightarrow> qs)
        in if qs' \<noteq> [] then Inl (ValidationError title_duplicate) else Inr val)"

text \<open>
  The values a request body can hold for a key, and Python's \<^verbatim>\<open>str\<close> of them.
  \<^verbatim>\<open>initial_data.get('article')\<close> is \<^verbatim>\<open>None\<close> when the key is absent.
\<close>

datatype raw = RawNone | RawInt int | RawStr string | RawBool bool

fun py_str :: "raw \<Rightarrow> string" where
  "py_str RawNone = ''None''"
| "py_str (RawInt i) = (if i < 0 then ''-'' @ str_nat (nat (- i)) else str_nat (nat i))"
| "py_str (RawStr s) = s"
| "py_str (RawBool b) = (if b then ''True'' else ''False'')"

definition dict_get :: "(string \<rightharpoonup> raw) \<Rightarrow> string \<Rightarrow> raw" where
  "dict_get d k = (case d k of None \<Rightarrow> RawNone | Some v \<Rightarrow> v)"

definition parent_mismatch :: string where
  "parent_mismatch = ''Parent comment must belong to the same article.''"

text \<open>
  \<^verbatim>\<open>CommentSerializer.validate_parent\<close>: \<open>val\<close> is the parent comment the field resolved
  to (\<open>None\<close> when the request gives no parent); \<^verbatim>\<open>value.article.id\<close> is the parent's
  foreign key to its article.
\<close>

definition validate_parent :: "(string \<rightharpoonup> raw) \<Rightarrow> comment option \<Rightarrow> error + comment option" where
  "validate_parent initial_data val =
     (let article = dict_get initial_data ''article'' in
      case val of
        None \<Rightarrow> Inr None
      | Some p \<Rightarrow>
          if str_nat (comment.article p) \<noteq> py_str article
          then Inl (ValidationError parent_mismatch)
          else Inr (Some p))"

subsection \<open>The normalizer of the slug allocator\<close>

text \<open>
  Modelled from the spec: the normalizer \<^verbatim>\<open>slugify\<close>, whose text is not in the
  repository. Section 4.2: lowercase, non-alphanumeric runs collapsed to single hyphens,
  leading/trailing hyphens trimmed. It is used where a concrete normalizer is needed to
  evaluate the allocator; the theorems about the allocator hold for every normalizer.
\<close>

definition is_alnum :: "char \<Rightarrow> bool" where
  "is_alnum c =
     (let n = (of_char c :: nat)
      in (48 \<le> n \<and> n \<le> 57) \<or> (65 \<le> n \<and> n \<le> 90) \<or> (97 \<le> n \<and> n \<le> 122))"

fun collapse_runs :: "bool \<Rightarrow> string \<Rightarrow> string" where
  "collapse_runs in_run [] = []"
| "collapse_runs in_run (c # cs) =
     (if is_alnum c then c # collapse_runs False cs
      else if in_run then collapse_runs True cs
      else CHR ''-'' # collapse_runs True cs)"

definition trim_hyphens :: "string \<Rightarrow> string" where
  "trim_hyphens s =
     rev (dropWhile (\<lambda>c. c = CHR ''-'') (rev (dropWhile (\<lambda>c. c = CHR ''-'') s)))"

definition slugify_spec :: "string \<Rightarrow> string" where
  "slugify_spec t = trim_hyphens (collapse_runs False (map lower_char t))"

section \<open>Persistence\<close>

text \<open>
  The state a write acts on: the two tables and the state of the cache backend. An
  operation returns the state it leaves behind together with its outcome, so that an
  exception raised after a row was written (the connection is in autocommit mode, the
  framework's default) leaves the row in the table.
\<close>

record 'c world =
  articles :: "article list"
  comments :: "comment list"
  cache :: 'c

subsection \<open>Cache invalidation (apps/content/signals.py)\<close>

text \<open>
  \<^verbatim>\<open>cache.delete\<close> belongs to the configured backend and is a parameter: it returns the
  backend's new state or raises. The loop over \<^verbatim>\<open>cache_keys\<close> has no exception handler,
  so it ends at the first \<^verbatim>\<open>cache.delete\<close> that raises.
\<close>

fun delete_keys :: "(string \<Rightarrow> 'c \<Rightarrow> error + 'c) \<Rightarrow> string list \<Rightarrow> 'c \<Rightarrow> 'c \<times> error option" where
  "delete_keys cache_delete [] c = (c, None)"
| "delete_keys cache_delete (key # keys) c =
     (case cache_delete key c of
        Inl e \<Rightarrow> (c, Some e)
      | Inr c' \<Rightarrow> delete_keys cache_delete keys c')"

definition str_pk :: "nat option \<Rightarrow> string" where
  "str_pk i = (case i of None \<Rightarrow> ''None'' | Some n \<Rightarrow> str_nat n)"

definition article_cache_keys :: "article \<Rightarrow> string list" where
  "article_cache_keys instance =
     [''article:'' @ str_pk (pk instance),
      ''article:slug:'' @ slug instance,
      ''articles:list:*'']"

definition invalidate_article_cache ::
  "(string \<Rightarrow> 'c \<Rightarrow> error + 'c) \<Rightarrow> article \<Rightarrow> 'c \<Rightarrow> 'c \<times> error option" where
  "invalidate_article_cache cache_delete instance c =
     delete_keys cache_delete (article_cache_keys instance) c"

definition comment_cache_keys :: "comment \<Rightarrow> string list" where
  "comment_cache_keys instance =
     [''comment:'' @ str_pk (pk instance),
      ''article:'' @ str_nat (comment.article instance) @ '':comments'']"

definition invalidate_comment_cache ::
  "(string \<Rightarrow> 'c \<Rightarrow> error + 'c) \<Rightarrow> comment \<Rightarrow> 'c \<Rightarrow> 'c \<times> error option" where
  "invalidate_comment_cache cache_delete instance c =
     delete_keys cache_delete (comment_cache_keys instance) c"

text \<open>
  \<^verbatim>\<open>post_save\<close> runs the receiver after the row was written; what the receiver raises
  reaches the caller of \<^verbatim>\<open>save\<close>.
\<close>

definition post_save ::
  "('a \<Rightarrow> 'c \<Rightarrow> 'c \<times> error option) \<Rightarrow> 'a \<Rightarrow> 'c world \<Rightarrow> 'c world \<times> (error + 'a)" where
  "post_save receiver instance w =
     (case receiver instance (cache w) of
        (c', None) \<Rightarrow> (w\<lparr>cache := c'\<rparr>, Inr instance)
      | (c', Some e) \<Rightarrow> (w\<lparr>cache := c'\<rparr>, Inl e))"

subsection \<open>The framework's \<^verbatim>\<open>Model.save\<close>\<close>

text \<open>
  What \<^verbatim>\<open>Model.save\<close> does to a table, as far as the fields declared in the
  repository decide it. Without \<^verbatim>\<open>update_fields\<close>: \<^verbatim>\<open>auto_now\<close> sets \<open>updated_at\<close>; an
  instance without a primary key, or whose primary key has no row, is inserted
  (\<^verbatim>\<open>auto_now_add\<close> sets \<open>created_at\<close>, a fresh key is drawn); otherwise its row is
  overwritten. A write that violates a declared constraint raises and changes nothing.
  With \<^verbatim>\<open>update_fields\<close>: only the named columns of the existing row are written, and
  \<^verbatim>\<open>auto_now\<close> applies only if \<open>updated_at\<close> is named; the repository names only fields
  of \<^verbatim>\<open>SoftDeleteModel\<close> there.
\<close>

definition next_pk :: "'a entity_scheme list \<Rightarrow> nat" where
  "next_pk tbl = Suc (fold max (map (\<lambda>r. case pk r of None \<Rightarrow> 0 | Some i \<Rightarrow> i) tbl) 0)"

definition copy_field :: "string \<Rightarrow> 'a entity_scheme \<Rightarrow> 'a entity_scheme \<Rightarrow> 'a entity_scheme" where
  "copy_field f self row =
     (if f = ''is_deleted'' then row\<lparr>is_deleted := is_deleted self\<rparr>
      else if f = ''deleted_at'' then row\<lparr>deleted_at := deleted_at self\<rparr>
      else if f = ''updated_at'' then row\<lparr>updated_at := updated_at self\<rparr>
      else if f = ''created_at'' then row\<lparr>created_at := created_at self\<rparr>
      else row)"

definition Model_save ::
  "('a entity_scheme list \<Rightarrow> 'a entity_scheme \<Rightarrow> bool) \<Rightarrow> string list option \<Rightarrow> datetime
     \<Rightarrow> 'a entity_scheme \<Rightarrow> 'a entity_scheme list
     \<Rightarrow> error + ('a entity_scheme \<times> 'a entity_scheme list)" where
  "Model_save violates update_fields now self tbl =
     (case update_fields of
        Some fs \<Rightarrow>
          if pk self = None then Inl ValueError
          else
            let self1 = (if ''updated_at'' \<in> set fs then self\<lparr>updated_at := now\<rparr> else self)
            in if \<not> (\<exists>r \<in> set tbl. pk r = pk self) then Inl DatabaseError
               else Inr (self1,
                      map (\<lambda>r. if pk r = pk self then fold (\<lambda>f. copy_field f self1) fs r else r) tbl)
      | None \<Rightarrow>
          let self1 = self\<lparr>updated_at := now\<rparr>
          in if pk self = None \<or> \<not> (\<exists>r \<in> set tbl. pk r = pk self)
             then
               let self2 = self1\<lparr>created_at := now,
                             pk := (if pk self = None then Some (next_pk tbl) else pk self)\<rparr>
               in if violates tbl self2 then Inl IntegrityError
                  else Inr (self2, tbl @ [self2])
             else if violates tbl self1 then Inl IntegrityError
             else Inr (self1, map (\<lambda>r. if pk r = pk self then self1 else r) tbl))"

text \<open>
  The constraints \<^verbatim>\<open>Article\<close> declares: \<^verbatim>\<open>slug\<close> is unique, \<^verbatim>\<open>views_count >= 0\<close>.
  \<^verbatim>\<open>Comment\<close> declares none.
\<close>

definition article_violates :: "article list \<Rightarrow> article \<Rightarrow> bool" where
  "article_violates tbl a =
     ((\<exists>r \<in> set tbl. pk r \<noteq> pk a \<and> slug r = slug a) \<or> views_count a < 0)"

definition comment_violates :: "comment list \<Rightarrow> comment \<Rightarrow> bool" where
  "comment_violates tbl c = False"

subsection \<open>\<^verbatim>\<open>Article.save\<close> and \<^verbatim>\<open>Comment.save\<close>\<close>

text \<open>
  The two assignments \<^verbatim>\<open>Article.save\<close> makes before it calls \<^verbatim>\<open>super().save\<close>. An
  empty string is the only falsy value of a text field.
\<close>

definition Article_fill :: "(string \<Rightarrow> string) \<Rightarrow> article list \<Rightarrow> article \<Rightarrow> article" where
  "Article_fill slugify tbl self =
     (let self1 = (if slug self = [] then self\<lparr>slug := generate_unique_slug slugify tbl self\<rparr>
                   else self);
          self2 = (if excerpt self1 = [] \<and> article.content self1 \<noteq> []
                   then self1\<lparr>excerpt :=
                          (if length (article.content self1) > 200
                           then take 200 (article.content self1) @ ''...''
                           else article.content self1)\<rparr>
                   else self1)
      in self2)"

definition Article_save ::
  "(string \<Rightarrow> string) \<Rightarrow> (string \<Rightarrow> 'c \<Rightarrow> error + 'c) \<Rightarrow> string list option \<Rightarrow> datetime
     \<Rightarrow> article \<Rightarrow> 'c world \<Rightarrow> 'c world \<times> (error + article)" where
  "Article_save slugify cache_delete update_fields now self w =
     (case Model_save article_violates update_fields now
             (Article_fill slugify (articles w) self) (articles w) of
        Inl e \<Rightarrow> (w, Inl e)
      | Inr (self', tbl') \<Rightarrow>
          post_save (invalidate_article_cache cache_delete) self' (w\<lparr>articles := tbl'\<rparr>))"

definition Comment_save ::
  "(string \<Rightarrow> 'c \<Rightarrow> error + 'c) \<Rightarrow> string list option \<Rightarrow> datetime
     \<Rightarrow> comment \<Rightarrow> 'c world \<Rightarrow> 'c world \<times> (error + comment)" where
  "Comment_save cache_delete update_fields now self w =
     (case Model_save comment_violates update_fields now self (comments w) of
        Inl e \<Rightarrow> (w, Inl e)
      | Inr (self', tbl') \<Rightarrow>
          post_save (invalidate_comment_cache cache_delete) self' (w\<lparr>comments := tbl'\<rparr>))"

subsection \<open>Soft delete (core/models.py)\<close>

text \<open>
  \<^verbatim>\<open>soft_delete\<close> and \<^verbatim>\<open>restore\<close> are methods of the abstract \<^verbatim>\<open>SoftDeleteModel\<close>;
  \<^verbatim>\<open>self.save\<close> is the method of the concrete class, a parameter here. \<open>now\<close> is the
  reading of the clock.
\<close>

definition soft_delete ::
  "(string list option \<Rightarrow> datetime \<Rightarrow> 'a entity_scheme \<Rightarrow> 'w \<Rightarrow> 'w \<times> (error + 'a entity_scheme))
     \<Rightarrow> datetime \<Rightarrow> 'a entity_scheme \<Rightarrow> 'w \<Rightarrow> 'w \<times> (error + 'a entity_scheme)" where
  "soft_delete save now self w =
     save (Some [''is_deleted'', ''deleted_at'']) now
       (self\<lparr>is_deleted := True, deleted_at := Some now\<rparr>) w"

definition restore ::
  "(string list option \<Rightarrow> datetime \<Rightarrow> 'a entity_scheme \<Rightarrow> 'w \<Rightarrow> 'w \<times> (error + 'a entity_scheme))
     \<Rightarrow> datetime \<Rightarrow> 'a entity_scheme \<Rightarrow> 'w \<Rightarrow> 'w \<times> (error + 'a entity_scheme)" where
  "restore save now self w =
     save (Some [''is_deleted'', ''deleted_at'']) now
       (self\<lparr>is_deleted := False, deleted_at := None\<rparr>) w"

section \<open>View counter\<close>

text \<open>
  \<^verbatim>\<open>Article.objects.filter(pk=self.pk).update(views_count=F('views_count') + 1)\<close> is one
  \<^verbatim>\<open>UPDATE\<close> statement: the store adds 1 to the stored value of every row the filter
  selects, and the \<open>views_count\<close> of the instance takes no part in it. The stored
  integer is unbounded, as Python's.
\<close>

definition update_views_count :: "nat option \<Rightarrow> article list \<Rightarrow> article list" where
  "update_views_count k tbl =
     map (\<lambda>r. if k \<noteq> None \<and> pk r = k then r\<lparr>views_count := views_count r + 1\<rparr> else r) tbl"

text \<open>
  \<^verbatim>\<open>self.refresh_from_db(fields=['views_count'])\<close> reads the row of the instance and
  raises \<^verbatim>\<open>DoesNotExist\<close> when there is none.
\<close>

definition refresh_from_db :: "article list \<Rightarrow> article \<Rightarrow> error + article" where
  "refresh_from_db tbl self =
     (case find (\<lambda>r. pk self \<noteq> None \<and> pk r = pk self) (Manager_get_queryset tbl) of
        None \<Rightarrow> Inl DoesNotExist
      | Some r \<Rightarrow> Inr (self\<lparr>views_count := views_count r\<rparr>))"

definition increment_views :: "article \<Rightarrow> article list \<Rightarrow> article list \<times> (error + article)" where
  "increment_views self tbl =
     (let tbl' = update_views_count (pk self) tbl
      in (tbl', refresh_from_db tbl' self))"

text \<open>
  Concurrent requests. Every request runs \<open>increment_views\<close> on an instance of its own;
  the store runs one statement at a time, so a run of the system is an interleaving of
  the statements of the requests: a schedule names, step by step, the request that runs
  its next statement. A request that has returned or raised ignores further steps.
\<close>

datatype stage = Called | Updated | Returned | Raised error

record request =
  progress :: stage
  held :: article

type_synonym system = "article list \<times> request list"

definition step :: "nat \<Rightarrow> system \<Rightarrow> system" where
  "step i s =
     (let tbl = fst s; reqs = snd s in
      if i < length reqs then
        (case progress (reqs ! i) of
           Called \<Rightarrow>
             (update_views_count (pk (held (reqs ! i))) tbl,
              reqs[i := (reqs ! i)\<lparr>progress := Updated\<rparr>])
         | Updated \<Rightarrow>
             (tbl,
              reqs[i := (case refresh_from_db tbl (held (reqs ! i)) of
                           Inl e \<Rightarrow> (reqs ! i)\<lparr>progress := Raised e\<rparr>
                         | Inr a \<Rightarrow> \<lparr>progress = Returned, held = a\<rparr>)])
         | Returned \<Rightarrow> s
         | Raised e \<Rightarrow> s)
      else s)"

definition run :: "nat list \<Rightarrow> system \<Rightarrow> system" where
  "run sched s = fold step sched s"

text \<open>The stored \<open>views_count\<close> of the article with primary key \<open>k\<close>.\<close>

definition stored_views :: "article list \<Rightarrow> nat \<Rightarrow> int option" where
  "stored_views tbl k = map_option views_count (find (\<lambda>r. pk r = Some k) tbl)"

text \<open>
  The requests that have run their \<^verbatim>\<open>UPDATE\<close>, the statements a request has run, and
  the invariant of every run: the store holds the initial value plus one per request
  that has run its \<^verbatim>\<open>UPDATE\<close>.
\<close>

definition started :: "request list \<Rightarrow> nat" where
  "started reqs = length (filter (\<lambda>q. progress q \<noteq> Called) reqs)"

definition done_steps :: "request \<Rightarrow> nat" where
  "done_steps q = (case progress q of Called \<Rightarrow> 0 | Updated \<Rightarrow> 1 | Returned \<Rightarrow> 2 | Raised e \<Rightarrow> 2)"

definition inv :: "nat \<Rightarrow> int \<Rightarrow> nat \<Rightarrow> system \<Rightarrow> bool" where
  "inv k v0 n s =
     (length (snd s) = n
      \<and> (\<forall>q \<in> set (snd s). pk (held q) = Some k
            \<and> (progress q = Called \<or> progress q = Updated \<or> progress q = Returned))
      \<and> stored_views (fst s) k = Some (v0 + int (started (snd s))))"

section \<open>Example rows\<close>

definition example_article :: article where
  "example_article =
     \<lparr>pk = Some 1, created_at = 10, updated_at = 10, is_deleted = False, deleted_at = None,
      title = ''Hello World!'', slug = ''hello-world'',
      article.content = ''Some content.'', excerpt = ''Some content.'',
      article.author = 1, is_published = True, views_count = 0, tags = []\<rparr>"

definition example_comment :: comment where
  "example_comment =
     \<lparr>pk = Some 1, created_at = 20, updated_at = 20, is_deleted = False, deleted_at = None,
      article = 1, comment.content = ''First!'', comment.author = 2, parent = None\<rparr>"

text \<open>
  A thread: comment 1 is top-level with seven children (2, 3, 5, 6, 7, 8, 9), created in
  that order, of which 3 is soft-deleted; comment 4 is a child of the reply 2.
\<close>

definition example_thread :: "comment list" where
  "example_thread =
     [example_comment,
      example_comment\<lparr>pk := Some 2, created_at := 21, parent := Some 1\<rparr>,
      example_comment\<lparr>pk := Some 3, created_at := 22, parent := Some 1,
        is_deleted := True, deleted_at := Some 40\<rparr>,
      example_comment\<lparr>pk := Some 4, created_at := 23, parent := Some 2\<rparr>,
      example_comment\<lparr>pk := Some 5, created_at := 24, parent := Some 1\<rparr>,
      example_comment\<lparr>pk := Some 6, created_at := 25, parent := Some 1\<rparr>,
      example_comment\<lparr>pk := Some 7, created_at := 26, parent := Some 1\<rparr>,
      example_comment\<lparr>pk := Some 8, created_at := 27, parent := Some 1\<rparr>,
      example_comment\<lparr>pk := Some 9, created_at := 28, parent := Some 1\<rparr>]"

text \<open>
  Two cache backends: one whose state is the list of the keys it holds, and one that is
  unavailable and raises on every call.
\<close>

definition working_delete :: "string \<Rightarrow> string list \<Rightarrow> error + string list" where
  "working_delete key c = Inr (removeAll key c)"

definition unavailable_delete :: "string \<Rightarrow> string list \<Rightarrow> error + string list" where
  "unavailable_delete key c = Inl (CacheError ''unavailable'')"

text \<open>A cache backend that raises on the keys listed and deletes every other key.\<close>

definition failing_on :: "string list \<Rightarrow> string \<Rightarrow> string list \<Rightarrow> error + string list" where
  "failing_on bad key c = (if key \<in> set bad then Inl (CacheError key) else Inr (removeAll key c))"

text \<open>An article as a create request builds it: no primary key, no slug, no excerpt.\<close>

definition new_article :: "string \<Rightarrow> string \<Rightarrow> article" where
  "new_article t c =
     \<lparr>pk = None, created_at = 0, updated_at = 0, is_deleted = False, deleted_at = None,
      title = t, slug = [], article.content = c, excerpt = [],
      article.author = 1, is_published = True, views_count = 0, tags = []\<rparr>"

definition example_world :: "string list world" where
  "example_world =
     \<lparr>articles = [example_article], comments = example_thread,
      cache = [''article:1'', ''article:slug:hello-world'', ''comment:1'', ''article:1:comments'']\<rparr>"

text \<open>The same world after article 1 was soft-deleted.\<close>

definition archived_world :: "string list world" where
  "archived_world =
     example_world\<lparr>articles := [example_article\<lparr>is_deleted := True, deleted_at := Some 30\<rparr>]\<rparr>"

text \<open>
  Three requests about to call \<open>increment_views\<close> on article 1, each holding an instance
  with a stale \<open>views_count\<close>.
\<close>

definition example_requests :: "request list" where
  "example_requests =
     [\<lparr>progress = Called, held = example_article\<lparr>views_count := 7\<rparr>\<rparr>,
      \<lparr>progress = Called, held = example_article\<lparr>views_count := 0\<rparr>\<rparr>,
      \<lparr>progress = Called, held = example_article\<lparr>views_count := 7\<rparr>\<rparr>]"

text \<open>
  Article 1 as a full save at clock 5 leaves it, and comment 1 with its thread as a soft
  delete at clock 50 leaves them.
\<close>

definition saved_article :: article where
  "saved_article = example_article\<lparr>updated_at := 5\<rparr>"

definition deleted_comment :: comment where
  "deleted_comment = example_comment\<lparr>is_deleted := True, deleted_at := Some 50\<rparr>"

definition deleted_thread :: "comment list" where
  "deleted_thread =
     map (\<lambda>r. if pk r = Some 1 then r\<lparr>is_deleted := True, deleted_at := Some 50\<rparr> else r)
       example_thread"

text \<open>
  The row a create request with the title \<^verbatim>\<open>!!!\<close> leaves in the table (its slug is
  empty), and the table of articles with it.
\<close>

definition blank_article :: article where
  "blank_article =
     (new_article ''!!!'' ''Some content here'')
       \<lparr>pk := Some 2, created_at := 5, updated_at := 5, excerpt := ''Some content here''\<rparr>"

definition blank_world :: "string list world" where
  "blank_world = example_world\<lparr>articles := [example_article, blank_article]\<rparr>"

section \<open>Lemmas\<close>

lemma generate_loop_unused: "\<not> slug_exists tbl s \<Longrightarrow> generate_loop tbl b s c = s"
  by (simp add: generate_loop.simps)

lemma generate_loop_used:
  "slug_exists tbl s \<Longrightarrow>
     generate_loop tbl b s c = generate_loop tbl b (b @ ''-'' @ str_nat c) (c + 1)"
  by (subst generate_loop.simps) simp

lemma generate_loop_probe:
  "slug_exists tbl s \<Longrightarrow>
     \<exists>k \<ge> c. generate_loop tbl b s c = b @ ''-'' @ str_nat k
        \<and> \<not> slug_exists tbl (b @ ''-'' @ str_nat k)
        \<and> (\<forall>j. c \<le> j \<and> j < k \<longrightarrow> slug_exists tbl (b @ ''-'' @ str_nat j))"
proof (induction tbl b s c rule: generate_loop.induct)
  case (1 tbl b s c)
  show ?case
  proof (cases "slug_exists tbl (b @ ''-'' @ str_nat c)")
    case False
    with "1.prems" have "generate_loop tbl b s c = b @ ''-'' @ str_nat c"
      using generate_loop_used [of tbl s b c]
        generate_loop_unused [of tbl "b @ ''-'' @ str_nat c" b "c + 1"] by simp
    with False show ?thesis by (intro exI [of _ c]) auto
  next
    case True
    with "1.IH" "1.prems" obtain k where k: "c + 1 \<le> k"
      "generate_loop tbl b (b @ ''-'' @ str_nat c) (c + 1) = b @ ''-'' @ str_nat k"
      "\<not> slug_exists tbl (b @ ''-'' @ str_nat k)"
      "\<forall>j. c + 1 \<le> j \<and> j < k \<longrightarrow> slug_exists tbl (b @ ''-'' @ str_nat j)"
      by blast
    have "\<forall>j. c \<le> j \<and> j < k \<longrightarrow> slug_exists tbl (b @ ''-'' @ str_nat j)"
    proof (intro allI impI)
      fix j assume j: "c \<le> j \<and> j < k"
      show "slug_exists tbl (b @ ''-'' @ str_nat j)"
      proof (cases "j = c")
        case True with \<open>slug_exists tbl (b @ ''-'' @ str_nat c)\<close> show ?thesis by simp
      next
        case False with j k(4) show ?thesis by simp
      qed
    qed
    moreover from "1.prems" k(2) have "generate_loop tbl b s c = b @ ''-'' @ str_nat k"
      using generate_loop_used [of tbl s b c] by simp
    moreover from k(1) have "c \<le> k" by simp
    ultimately show ?thesis using k(3) by blast
  qed
qed

lemma Model_save_full:
  assumes "Model_save violates None now self tbl = Inr (self', tbl')"
  shows "self' \<in> set tbl'"
    and "\<exists>c p. self' = self\<lparr>updated_at := now, created_at := c, pk := p\<rparr>"
    and "\<not> violates tbl self'"
    and "tbl' = tbl @ [self'] \<or> tbl' = map (\<lambda>r. if pk r = pk self then self' else r) tbl"
proof -
  show "self' \<in> set tbl'"
    using assms by (auto simp: Model_save_def Let_def split: if_splits)
  show "\<not> violates tbl self'"
    using assms by (auto simp: Model_save_def Let_def split: if_splits)
  show "tbl' = tbl @ [self'] \<or> tbl' = map (\<lambda>r. if pk r = pk self then self' else r) tbl"
    using assms by (auto simp: Model_save_def Let_def split: if_splits)
  show "\<exists>c p. self' = self\<lparr>updated_at := now, created_at := c, pk := p\<rparr>"
  proof (cases "pk self = None \<or> \<not> (\<exists>r \<in> set tbl. pk r = pk self)")
    case True
    with assms have "self' = self\<lparr>updated_at := now, created_at := now,
        pk := (if pk self = None then Some (next_pk tbl) else pk self)\<rparr>"
      by (auto simp: Model_save_def Let_def split: if_splits)
    then show ?thesis by blast
  next
    case False
    with assms have "self' = self\<lparr>updated_at := now\<rparr>"
      by (auto simp: Model_save_def Let_def split: if_splits)
    then have "self' = self\<lparr>updated_at := now, created_at := created_at self, pk := pk self\<rparr>"
      by simp
    then show ?thesis by blast
  qed
qed

lemma post_save_Inr:
  "post_save receiver instance w = (w', Inr x) \<Longrightarrow> x = instance \<and> articles w' = articles w \<and> comments w' = comments w"
  by (auto simp: post_save_def split: prod.splits option.splits)

lemma Article_save_Inr:
  assumes "Article_save slugify cache_delete None now self w = (w', Inr self')"
  shows "\<exists>c p. self' = (Article_fill slugify (articles w) self)\<lparr>updated_at := now, created_at := c, pk := p\<rparr>"
    and "self' \<in> set (articles w')"
    and "articles w' = articles w @ [self']
           \<or> articles w' = map (\<lambda>r. if pk r = pk self then self' else r) (articles w)"
proof -
  from assms obtain a tbl' where m: "Model_save article_violates None now
      (Article_fill slugify (articles w) self) (articles w) = Inr (a, tbl')"
    and p: "post_save (invalidate_article_cache cache_delete) a (w\<lparr>articles := tbl'\<rparr>) = (w', Inr self')"
    by (auto simp: Article_save_def split: sum.splits)
  from post_save_Inr [OF p] have eq: "self' = a" "articles w' = tbl'" by simp_all
  have pkf: "pk (Article_fill slugify (articles w) self) = pk self"
    by (simp add: Article_fill_def Let_def)
  from Model_save_full [OF m] eq pkf
  show "\<exists>c p. self' = (Article_fill slugify (articles w) self)\<lparr>updated_at := now, created_at := c, pk := p\<rparr>"
    and "self' \<in> set (articles w')"
    and "articles w' = articles w @ [self']
           \<or> articles w' = map (\<lambda>r. if pk r = pk self then self' else r) (articles w)"
    by auto
qed

lemma generate_unique_slug_spec:
  "(\<not> slug_exists tbl (slugify (title self)) \<longrightarrow>
       generate_unique_slug slugify tbl self = slugify (title self))
   \<and> (slug_exists tbl (slugify (title self)) \<longrightarrow>
       (\<exists>k \<ge> 1. generate_unique_slug slugify tbl self = slugify (title self) @ ''-'' @ str_nat k
          \<and> (\<forall>j. 1 \<le> j \<and> j < k \<longrightarrow> slug_exists tbl (slugify (title self) @ ''-'' @ str_nat j))))
   \<and> \<not> slug_exists tbl (generate_unique_slug slugify tbl self)"
proof (cases "slug_exists tbl (slugify (title self))")
  case False
  then show ?thesis
    by (simp add: generate_unique_slug_def generate_loop_unused)
next
  case True
  from generate_loop_probe [OF True, of 1 "slugify (title self)"]
  show ?thesis using True
    by (auto simp: generate_unique_slug_def)
qed

lemma distinct_replace_slug:
  "distinct (map pk tbl) \<Longrightarrow> distinct (map slug tbl) \<Longrightarrow> slug a \<notin> slug ` set tbl \<Longrightarrow>
     distinct (map slug (map (\<lambda>r. if pk r = p then a else r) tbl))"
proof (induction tbl)
  case Nil
  then show ?case by simp
next
  case (Cons r rs)
  have rest: "map (\<lambda>r. if pk r = p then a else r) rs = rs" if "pk r = p"
  proof (rule map_idI)
    fix x assume "x \<in> set rs"
    then have "pk x \<in> set (map pk rs)" by simp
    moreover from Cons.prems(1) have "pk r \<notin> set (map pk rs)" by simp
    ultimately have "pk x \<noteq> p" using that by metis
    then show "(if pk x = p then a else x) = x" by simp
  qed
  from Cons show ?case
    by (auto simp: rest image_iff)
qed

lemma Article_fill_slug:
  "slug self = [] \<Longrightarrow> slug (Article_fill slugify tbl self) = generate_unique_slug slugify tbl self"
  by (simp add: Article_fill_def Let_def)

lemma delete_keys_total:
  "(\<forall>key c. \<exists>c'. cache_delete key c = Inr c') \<Longrightarrow> \<exists>c'. delete_keys cache_delete keys c = (c', None)"
proof (induction keys arbitrary: c)
  case Nil
  then show ?case by simp
next
  case (Cons key keys)
  from Cons.prems obtain c1 where "cache_delete key c = Inr c1" by blast
  with Cons.IH [OF Cons.prems, of c1] show ?case by simp
qed

lemma post_save_total:
  "\<exists>c'. receiver instance (cache w) = (c', None) \<Longrightarrow>
     \<exists>c'. post_save receiver instance w = (w\<lparr>cache := c'\<rparr>, Inr instance)"
  by (auto simp: post_save_def)

lemma Model_save_full_succeeds:
  assumes "\<And>c p. \<not> violates tbl (self\<lparr>updated_at := now, created_at := c, pk := p\<rparr>)"
  shows "\<exists>self' tbl'. Model_save violates None now self tbl = Inr (self', tbl')"
proof -
  have a: "\<not> violates tbl (self\<lparr>updated_at := now, created_at := now,
               pk := (if pk self = None then Some (next_pk tbl) else pk self)\<rparr>)"
    by (rule assms)
  have "\<not> violates tbl (self\<lparr>updated_at := now, created_at := created_at self, pk := pk self\<rparr>)"
    by (rule assms)
  then have b: "\<not> violates tbl (self\<lparr>updated_at := now\<rparr>)" by simp
  from a b show ?thesis
    by (simp add: Model_save_def Let_def)
qed

lemma Article_fill_keeps:
  "views_count (Article_fill slugify tbl self) = views_count self"
  "pk (Article_fill slugify tbl self) = pk self"
  "is_deleted (Article_fill slugify tbl self) = is_deleted self"
  "deleted_at (Article_fill slugify tbl self) = deleted_at self"
  by (simp_all add: Article_fill_def Let_def)

lemma Model_save_soft_fields:
  assumes "Model_save violates (Some [''is_deleted'', ''deleted_at'']) now self tbl = Inr (self', tbl')"
  shows "self' = self"
    and "tbl' = map (\<lambda>r. if pk r = pk self
                          then r\<lparr>is_deleted := is_deleted self, deleted_at := deleted_at self\<rparr>
                          else r) tbl"
  using assms by (auto simp: Model_save_def copy_field_def split: if_splits)

lemma Comment_save_soft_fields:
  assumes "Comment_save cache_delete (Some [''is_deleted'', ''deleted_at'']) now x w = (w', Inr x')"
  shows "x' = x"
    and "comments w' = map (\<lambda>r. if pk r = pk x
                          then r\<lparr>is_deleted := is_deleted x, deleted_at := deleted_at x\<rparr>
                          else r) (comments w)"
    and "articles w' = articles w"
proof -
  from assms obtain y tbl' where m: "Model_save comment_violates (Some [''is_deleted'', ''deleted_at''])
      now x (comments w) = Inr (y, tbl')"
    and p: "post_save (invalidate_comment_cache cache_delete) y (w\<lparr>comments := tbl'\<rparr>) = (w', Inr x')"
    by (auto simp: Comment_save_def split: sum.splits)
  from post_save_Inr [OF p] Model_save_soft_fields [OF m]
  show "x' = x"
    and "comments w' = map (\<lambda>r. if pk r = pk x
                          then r\<lparr>is_deleted := is_deleted x, deleted_at := deleted_at x\<rparr>
                          else r) (comments w)"
    and "articles w' = articles w"
    by auto
qed

lemma Article_save_soft_fields:
  assumes "Article_save slugify cache_delete (Some [''is_deleted'', ''deleted_at'']) now x w = (w', Inr x')"
  shows "x' = Article_fill slugify (articles w) x"
    and "articles w' = map (\<lambda>r. if pk r = pk x
                          then r\<lparr>is_deleted := is_deleted x, deleted_at := deleted_at x\<rparr>
                          else r) (articles w)"
    and "comments w' = comments w"
proof -
  from assms obtain y tbl' where m: "Model_save article_violates (Some [''is_deleted'', ''deleted_at''])
      now (Article_fill slugify (articles w) x) (articles w) = Inr (y, tbl')"
    and p: "post_save (invalidate_article_cache cache_delete) y (w\<lparr>articles := tbl'\<rparr>) = (w', Inr x')"
    by (auto simp: Article_save_def split: sum.splits)
  from post_save_Inr [OF p] Model_save_soft_fields [OF m]
  show "x' = Article_fill slugify (articles w) x"
    and "articles w' = map (\<lambda>r. if pk r = pk x
                          then r\<lparr>is_deleted := is_deleted x, deleted_at := deleted_at x\<rparr>
                          else r) (articles w)"
    and "comments w' = comments w"
    by (auto simp: Article_fill_keeps)
qed

lemma flags_id:
  fixes x :: "'a entity_scheme"
  shows "is_deleted x = False \<Longrightarrow> deleted_at x = None \<Longrightarrow>
           x\<lparr>is_deleted := False, deleted_at := None\<rparr> = x"
  by (cases x) simp

lemma stored_views_update:
  "stored_views (update_views_count (Some k) tbl) k = map_option (\<lambda>v. v + 1) (stored_views tbl k)"
  by (induction tbl) (auto simp: stored_views_def update_views_count_def)

lemma refresh_stored:
  "stored_views tbl k = Some v \<Longrightarrow> pk self = Some k \<Longrightarrow>
     refresh_from_db tbl self = Inr (self\<lparr>views_count := v\<rparr>)"
  by (auto simp: stored_views_def refresh_from_db_def Manager_get_queryset_def)

lemma started_start:
  "i < length reqs \<Longrightarrow> progress (reqs ! i) = Called \<Longrightarrow> progress q \<noteq> Called \<Longrightarrow>
     started (reqs[i := q]) = Suc (started reqs)"
proof (induction reqs arbitrary: i)
  case Nil
  then show ?case by simp
next
  case (Cons r rs)
  then show ?case by (cases i) (auto simp: started_def)
qed

lemma started_same:
  "i < length reqs \<Longrightarrow> progress (reqs ! i) \<noteq> Called \<Longrightarrow> progress q \<noteq> Called \<Longrightarrow>
     started (reqs[i := q]) = started reqs"
proof (induction reqs arbitrary: i)
  case Nil
  then show ?case by simp
next
  case (Cons r rs)
  then show ?case by (cases i) (auto simp: started_def)
qed

lemma set_update_cases:
  "q \<in> set (xs[i := y]) \<Longrightarrow> q = y \<or> q \<in> set xs"
  by (metis in_set_conv_nth length_list_update nth_list_update_eq nth_list_update_neq)

lemma inv_step:
  assumes "inv k v0 n s"
  shows "inv k v0 n (step i s)"
proof (cases "i < length (snd s)")
  case False
  with assms show ?thesis by (simp add: step_def Let_def)
next
  case True
  let ?q = "snd s ! i"
  from True have qin: "?q \<in> set (snd s)" by simp
  with assms have pkq: "pk (held ?q) = Some k"
    and stq: "progress ?q = Called \<or> progress ?q = Updated \<or> progress ?q = Returned"
    by (auto simp: inv_def)
  from assms have st: "stored_views (fst s) k = Some (v0 + int (started (snd s)))"
    by (simp add: inv_def)
  from stq show ?thesis
  proof (elim disjE)
    assume c: "progress ?q = Called"
    have s': "step i s = (update_views_count (Some k) (fst s), (snd s)[i := ?q\<lparr>progress := Updated\<rparr>])"
      using True c pkq by (simp add: step_def Let_def)
    have "started ((snd s)[i := ?q\<lparr>progress := Updated\<rparr>]) = Suc (started (snd s))"
      using True c by (intro started_start) simp_all
    moreover have "\<forall>q \<in> set ((snd s)[i := ?q\<lparr>progress := Updated\<rparr>]). pk (held q) = Some k
            \<and> (progress q = Called \<or> progress q = Updated \<or> progress q = Returned)"
    proof
      fix q assume "q \<in> set ((snd s)[i := ?q\<lparr>progress := Updated\<rparr>])"
      then have "q = ?q\<lparr>progress := Updated\<rparr> \<or> q \<in> set (snd s)" by (rule set_update_cases)
      with assms pkq show "pk (held q) = Some k
            \<and> (progress q = Called \<or> progress q = Updated \<or> progress q = Returned)"
        by (auto simp: inv_def)
    qed
    ultimately show ?thesis
      using assms st by (simp add: s' inv_def stored_views_update)
  next
    assume u: "progress ?q = Updated"
    from refresh_stored [OF st pkq]
    have s': "step i s = (fst s, (snd s)[i := \<lparr>progress = Returned,
                 held = (held ?q)\<lparr>views_count := v0 + int (started (snd s))\<rparr>\<rparr>])"
      using True u by (simp add: step_def Let_def)
    let ?r = "\<lparr>progress = Returned, held = (held ?q)\<lparr>views_count := v0 + int (started (snd s))\<rparr>\<rparr>"
    have "started ((snd s)[i := ?r]) = started (snd s)"
      using True u by (intro started_same) simp_all
    moreover have "\<forall>q \<in> set ((snd s)[i := ?r]). pk (held q) = Some k
            \<and> (progress q = Called \<or> progress q = Updated \<or> progress q = Returned)"
    proof
      fix q assume "q \<in> set ((snd s)[i := ?r])"
      then have "q = ?r \<or> q \<in> set (snd s)" by (rule set_update_cases)
      with assms pkq show "pk (held q) = Some k
            \<and> (progress q = Called \<or> progress q = Updated \<or> progress q = Returned)"
        by (auto simp: inv_def)
    qed
    ultimately show ?thesis
      using assms st by (simp add: s' inv_def)
  next
    assume r: "progress ?q = Returned"
    with True have "step i s = s" by (simp add: step_def Let_def)
    with assms show ?thesis by simp
  qed
qed

lemma inv_run: "inv k v0 n s \<Longrightarrow> inv k v0 n (run sched s)"
  unfolding run_def by (induction sched arbitrary: s) (simp_all add: inv_step)

lemma step_other: "j \<noteq> i \<Longrightarrow> snd (step i s) ! j = snd s ! j"
  by (simp add: step_def Let_def split: stage.splits)

lemma step_self:
  assumes "inv k v0 n s" and "i < n"
  shows "done_steps (snd (step i s) ! i) = min 2 (Suc (done_steps (snd s ! i)))"
proof -
  let ?q = "snd s ! i"
  from assms have len: "i < length (snd s)" by (simp add: inv_def)
  then have "?q \<in> set (snd s)" by simp
  with assms have pkq: "pk (held ?q) = Some k"
    and stq: "progress ?q = Called \<or> progress ?q = Updated \<or> progress ?q = Returned"
    by (auto simp: inv_def)
  from assms have st: "stored_views (fst s) k = Some (v0 + int (started (snd s)))"
    by (simp add: inv_def)
  from stq show ?thesis
  proof (elim disjE)
    assume "progress ?q = Called"
    with len show ?thesis by (simp add: step_def Let_def done_steps_def)
  next
    assume "progress ?q = Updated"
    with len refresh_stored [OF st pkq] show ?thesis
      by (simp add: step_def Let_def done_steps_def)
  next
    assume "progress ?q = Returned"
    with len show ?thesis by (simp add: step_def Let_def done_steps_def)
  qed
qed

lemma run_progress:
  "inv k v0 n s \<Longrightarrow> i < n \<Longrightarrow>
     min 2 (done_steps (snd s ! i) + count_list sched i) \<le> done_steps (snd (run sched s) ! i)"
proof (induction sched arbitrary: s)
  case Nil
  then show ?case by (simp add: run_def)
next
  case (Cons j sched)
  have inv': "inv k v0 n (step j s)" using Cons.prems(1) by (rule inv_step)
  have run': "run (j # sched) s = run sched (step j s)" by (simp add: run_def)
  from Cons.IH [OF inv' Cons.prems(2)]
  have ih: "min 2 (done_steps (snd (step j s) ! i) + count_list sched i)
              \<le> done_steps (snd (run sched (step j s)) ! i)" .
  have fin: "done_steps (snd (run (j # sched) s) ! i) = done_steps (snd (run sched (step j s)) ! i)"
    by (simp only: run')
  show ?case
  proof (cases "j = i")
    case True
    from step_self [OF Cons.prems] True
    have d: "done_steps (snd (step j s) ! i) = min 2 (Suc (done_steps (snd s ! i)))"
      by simp
    have c: "count_list (j # sched) i = Suc (count_list sched i)"
      using True by simp
    have "min 2 (done_steps (snd s ! i) + Suc (count_list sched i))
            \<le> min 2 (min 2 (Suc (done_steps (snd s ! i))) + count_list sched i)"
      by arith
    with ih show ?thesis
      unfolding fin c d by (rule order_trans [rotated])
  next
    case False
    then have d: "snd (step j s) ! i = snd s ! i" by (simp add: step_other)
    have c: "count_list (j # sched) i = count_list sched i"
      using False by simp
    from ih show ?thesis
      unfolding fin c d .
  qed
qed

lemma increment_views_stored:
  assumes "stored_views tbl k = Some v" and "pk self = Some k"
  shows "increment_views self tbl
           = (update_views_count (Some k) tbl, Inr (self\<lparr>views_count := v + 1\<rparr>))"
    and "stored_views (update_views_count (Some k) tbl) k = Some (v + 1)"
proof -
  show st: "stored_views (update_views_count (Some k) tbl) k = Some (v + 1)"
    using assms(1) by (simp add: stored_views_update)
  from refresh_stored [OF st assms(2)] assms(2)
  show "increment_views self tbl
           = (update_views_count (Some k) tbl, Inr (self\<lparr>views_count := v + 1\<rparr>))"
    by (simp add: increment_views_def Let_def)
qed

lemma step_return:
  assumes "inv k v0 n s" and "i < n" and "progress (snd s ! i) = Updated"
  shows "progress (snd (step i s) ! i) = Returned"
    and "Some (views_count (held (snd (step i s) ! i))) = stored_views (fst (step i s)) k"
proof -
  let ?q = "snd s ! i"
  from assms have len: "i < length (snd s)" by (simp add: inv_def)
  then have "?q \<in> set (snd s)" by simp
  with assms have pkq: "pk (held ?q) = Some k" by (auto simp: inv_def)
  from assms have st: "stored_views (fst s) k = Some (v0 + int (started (snd s)))"
    by (simp add: inv_def)
  from refresh_stored [OF st pkq] len assms(3)
  have s': "step i s = (fst s, (snd s)[i := \<lparr>progress = Returned,
                 held = (held ?q)\<lparr>views_count := v0 + int (started (snd s))\<rparr>\<rparr>])"
    by (simp add: step_def Let_def)
  from len show "progress (snd (step i s) ! i) = Returned"
    by (simp add: s')
  from len st show "Some (views_count (held (snd (step i s) ! i))) = stored_views (fst (step i s)) k"
    by (simp add: s')
qed

lemma validate_parent_canonical:
  "validate_parent (d(''article'' \<mapsto> RawInt (int a))) (Some p)
     = (if comment.article p = a then Inr (Some p) else Inl (ValidationError parent_mismatch))"
  "validate_parent (d(''article'' \<mapsto> RawStr (str_nat a))) (Some p)
     = (if comment.article p = a then Inr (Some p) else Inl (ValidationError parent_mismatch))"
  "validate_parent d None = Inr None"
  using str_nat_inj [of "comment.article p" a]
  by (auto simp: validate_parent_def dict_get_def)

lemma validate_title_short:
  "length val < 3 \<Longrightarrow> validate_title tbl inst val = Inl (ValidationError title_too_short)"
  by (simp add: validate_title_def)

lemma validate_title_long:
  assumes "\<not> length val < 3"
  shows "validate_title tbl inst val =
     (if \<exists>a \<in> set tbl. is_deleted a = False \<and> iexact (title a) val
             \<and> (\<forall>i. inst = Some i \<longrightarrow> pk a \<noteq> pk i)
      then Inl (ValidationError title_duplicate) else Inr val)"
proof (cases inst)
  case None
  have "(filter (\<lambda>a. iexact (title a) val \<and> is_deleted a = False) tbl \<noteq> [])
          = (\<exists>a \<in> set tbl. is_deleted a = False \<and> iexact (title a) val)"
    unfolding filter_empty_conv by blast
  with assms None show ?thesis
    by (simp add: validate_title_def Manager_get_queryset_def Let_def)
next
  case (Some i)
  have "(filter (\<lambda>a. pk a \<noteq> pk i) (filter (\<lambda>a. iexact (title a) val \<and> is_deleted a = False) tbl) \<noteq> [])
          = (\<exists>a \<in> set tbl. is_deleted a = False \<and> iexact (title a) val \<and> pk a \<noteq> pk i)"
    unfolding filter_empty_conv by auto
  with assms Some show ?thesis
    by (simp add: validate_title_def Manager_get_queryset_def Let_def)
qed

lemma iexact_length: "iexact s t \<Longrightarrow> length s = length t"
  unfolding iexact_def by (drule arg_cong [where f = length]) simp

lemma title_messages_differ: "title_too_short \<noteq> title_duplicate"
  by (simp add: title_too_short_def title_duplicate_def)

lemma invalidate_article_cache_steps:
  "invalidate_article_cache cache_delete a st =
     (case cache_delete (''article:'' @ str_pk (pk a)) st of
        Inl e \<Rightarrow> (st, Some e)
      | Inr s1 \<Rightarrow>
          (case cache_delete (''article:slug:'' @ slug a) s1 of
             Inl e \<Rightarrow> (s1, Some e)
           | Inr s2 \<Rightarrow>
               (case cache_delete ''articles:list:*'' s2 of
                  Inl e \<Rightarrow> (s2, Some e)
                | Inr s3 \<Rightarrow> (s3, None))))"
  by (simp add: invalidate_article_cache_def article_cache_keys_def split: sum.splits)

lemma invalidate_comment_cache_steps:
  "invalidate_comment_cache cache_delete c st =
     (case cache_delete (''comment:'' @ str_pk (pk c)) st of
        Inl e \<Rightarrow> (st, Some e)
      | Inr s1 \<Rightarrow>
          (case cache_delete (''article:'' @ str_nat (comment.article c) @ '':comments'') s1 of
             Inl e \<Rightarrow> (s1, Some e)
           | Inr s2 \<Rightarrow> (s2, None)))"
  by (simp add: invalidate_comment_cache_def comment_cache_keys_def split: sum.splits)

lemma Article_save_written:
  "Model_save article_violates uf now (Article_fill slugify (articles w) a) (articles w) = Inr (a', tbl')
   \<Longrightarrow> Article_save slugify cache_delete uf now a w
       = post_save (invalidate_article_cache cache_delete) a' (w\<lparr>articles := tbl'\<rparr>)"
  by (simp add: Article_save_def)

lemma Comment_save_written:
  "Model_save comment_violates uf now c (comments w) = Inr (c', tbl')
   \<Longrightarrow> Comment_save cache_delete uf now c w
       = post_save (invalidate_comment_cache cache_delete) c' (w\<lparr>comments := tbl'\<rparr>)"
  by (simp add: Comment_save_def)

lemma Article_fill_others:
  "(Article_fill slugify tbl x)\<lparr>slug := s, excerpt := e\<rparr> = x\<lparr>slug := s, excerpt := e\<rparr>"
  by (simp add: Article_fill_def Let_def)

lemma Article_fill_updated_at:
  "updated_at (Article_fill slugify tbl x) = updated_at x"
  by (simp add: Article_fill_def Let_def)

lemma flag_rows_updated_at:
  fixes tbl :: "'a entity_scheme list"
  shows "map updated_at (map (\<lambda>r. if pk r = p then r\<lparr>is_deleted := d, deleted_at := t\<rparr> else r) tbl)
     = map updated_at tbl"
  by (induction tbl) simp_all

lemma restored_table:
  fixes tbl :: "'a entity_scheme list"
  assumes "\<forall>r \<in> set tbl. pk r = p \<longrightarrow> is_deleted r = False \<and> deleted_at r = None"
  shows "map (\<lambda>r. if pk r = p then r\<lparr>is_deleted := False, deleted_at := None\<rparr> else r)
        (map (\<lambda>r. if pk r = p then r\<lparr>is_deleted := True, deleted_at := Some t\<rparr> else r) tbl) = tbl"
  using assms
proof (induction tbl)
  case Nil
  show ?case by simp
next
  case (Cons x xs)
  then have xs: "map (\<lambda>r. if pk r = p then r\<lparr>is_deleted := False, deleted_at := None\<rparr> else r)
        (map (\<lambda>r. if pk r = p then r\<lparr>is_deleted := True, deleted_at := Some t\<rparr> else r) xs) = xs"
    by simp
  have x: "(if pk (if pk x = p then x\<lparr>is_deleted := True, deleted_at := Some t\<rparr> else x) = p
            then (if pk x = p then x\<lparr>is_deleted := True, deleted_at := Some t\<rparr> else x)
                   \<lparr>is_deleted := False, deleted_at := None\<rparr>
            else (if pk x = p then x\<lparr>is_deleted := True, deleted_at := Some t\<rparr> else x)) = x"
  proof (cases "pk x = p")
    case True
    with Cons.prems have "is_deleted x = False" "deleted_at x = None" by simp_all
    then have "x\<lparr>is_deleted := False, deleted_at := None\<rparr> = x" by (rule flags_id)
    with True show ?thesis by simp
  next
    case False
    then show ?thesis by simp
  qed
  from x xs show ?case by simp
qed

text \<open>
  \<^verbatim>\<open>Article.save\<close> runs its two assignments before every write, also the write of a soft
  delete: an instance whose slug is empty leaves \<open>soft_delete\<close> with a slug the allocator
  chose, while its row, of which two other columns are written, keeps the empty slug.
\<close>

lemma soft_delete_fills_empty_slug:
  "snd (soft_delete (Article_save slugify_spec working_delete) 50 blank_article blank_world)
     = Inr (blank_article\<lparr>is_deleted := True, deleted_at := Some 50, slug := ''-1''\<rparr>)
   \<and> articles (fst (soft_delete (Article_save slugify_spec working_delete) 50 blank_article
         blank_world))
     = [example_article, blank_article\<lparr>is_deleted := True, deleted_at := Some 50\<rparr>]"
  by code_simp

section \<open>Claims\<close>

text \<open>
  C1. Let the article with primary key \<open>k\<close> be stored with \<open>views_count = v0\<close>, and let
  \<open>N\<close> requests each be about to call \<open>increment_views\<close> on an instance of it, whatever
  \<open>views_count\<close> those instances hold. In every interleaving in which each request runs
  both its statements, every call returns and the stored \<open>views_count\<close> ends at
  \<open>v0 + N\<close>; at the moment a call returns, the \<open>views_count\<close> of its instance is the
  stored value. A single call stores \<open>v0 + 1\<close> and leaves \<open>v0 + 1\<close> on the instance,
  whatever the instance held: the increment is computed on the stored value.
\<close>

theorem C1_concurrent_increments:
  "stored_views tbl k = Some v0
   \<and> (\<forall>q \<in> set reqs. progress q = Called \<and> pk (held q) = Some k)
   \<and> (\<forall>i < length reqs. 2 \<le> count_list sched i) \<longrightarrow>
     (\<forall>q \<in> set (snd (run sched (tbl, reqs))). progress q = Returned)
     \<and> stored_views (fst (run sched (tbl, reqs))) k = Some (v0 + int (length reqs))
     \<and> (\<forall>p i. i < length reqs \<and> progress (snd (run p (tbl, reqs)) ! i) = Updated \<longrightarrow>
           progress (snd (run (p @ [i]) (tbl, reqs)) ! i) = Returned
           \<and> Some (views_count (held (snd (run (p @ [i]) (tbl, reqs)) ! i)))
               = stored_views (fst (run (p @ [i]) (tbl, reqs))) k)
     \<and> (\<forall>self. pk self = Some k \<longrightarrow>
           increment_views self tbl
             = (update_views_count (Some k) tbl, Inr (self\<lparr>views_count := v0 + 1\<rparr>))
           \<and> stored_views (update_views_count (Some k) tbl) k = Some (v0 + 1))"
proof
  assume h: "stored_views tbl k = Some v0
   \<and> (\<forall>q \<in> set reqs. progress q = Called \<and> pk (held q) = Some k)
   \<and> (\<forall>i < length reqs. 2 \<le> count_list sched i)"
  let ?n = "length reqs"
  have st0: "started reqs = 0"
    using h by (simp add: started_def filter_empty_conv)
  have inv0: "inv k v0 ?n (tbl, reqs)"
    using h st0 by (simp add: inv_def)
  have invp: "inv k v0 ?n (run p (tbl, reqs))" for p
    using inv0 by (rule inv_run)
  let ?f = "run sched (tbl, reqs)"
  from invp [of sched] have len: "length (snd ?f) = ?n"
    and stages: "\<forall>q \<in> set (snd ?f). progress q = Called \<or> progress q = Updated \<or> progress q = Returned"
    and stored: "stored_views (fst ?f) k = Some (v0 + int (started (snd ?f)))"
    by (auto simp: inv_def)
  have done2: "done_steps (snd ?f ! i) = 2" if "i < ?n" for i
  proof -
    from run_progress [OF inv0 that, of sched] h that
    have "2 \<le> done_steps (snd ?f ! i)" by auto
    moreover have "done_steps (snd ?f ! i) \<le> 2"
      by (simp add: done_steps_def split: stage.splits)
    ultimately show ?thesis by simp
  qed
  have all_ret: "\<forall>q \<in> set (snd ?f). progress q = Returned"
  proof
    fix q assume q: "q \<in> set (snd ?f)"
    then obtain i where i: "i < ?n" "snd ?f ! i = q"
      using len by (auto simp: in_set_conv_nth)
    from done2 [OF i(1)] i(2) have "done_steps q = 2" by simp
    with stages q show "progress q = Returned"
      by (auto simp: done_steps_def)
  qed
  have "filter (\<lambda>q. progress q \<noteq> Called) (snd ?f) = snd ?f"
    using all_ret by (simp add: filter_id_conv)
  then have "started (snd ?f) = ?n"
    using len by (simp add: started_def)
  with stored have total: "stored_views (fst ?f) k = Some (v0 + int ?n)" by simp
  have rets: "progress (snd (run (p @ [i]) (tbl, reqs)) ! i) = Returned
           \<and> Some (views_count (held (snd (run (p @ [i]) (tbl, reqs)) ! i)))
               = stored_views (fst (run (p @ [i]) (tbl, reqs))) k"
    if "i < ?n \<and> progress (snd (run p (tbl, reqs)) ! i) = Updated" for p i
  proof -
    have "run (p @ [i]) (tbl, reqs) = step i (run p (tbl, reqs))"
      by (simp add: run_def)
    with step_return [OF invp [of p], of i] that show ?thesis by simp
  qed
  have seq: "increment_views self tbl
             = (update_views_count (Some k) tbl, Inr (self\<lparr>views_count := v0 + 1\<rparr>))
           \<and> stored_views (update_views_count (Some k) tbl) k = Some (v0 + 1)"
    if "pk self = Some k" for self
    using increment_views_stored [of tbl k v0 self] h that by simp
  from all_ret total rets seq
  show "(\<forall>q \<in> set (snd ?f). progress q = Returned)
     \<and> stored_views (fst ?f) k = Some (v0 + int ?n)
     \<and> (\<forall>p i. i < ?n \<and> progress (snd (run p (tbl, reqs)) ! i) = Updated \<longrightarrow>
           progress (snd (run (p @ [i]) (tbl, reqs)) ! i) = Returned
           \<and> Some (views_count (held (snd (run (p @ [i]) (tbl, reqs)) ! i)))
               = stored_views (fst (run (p @ [i]) (tbl, reqs))) k)
     \<and> (\<forall>self. pk self = Some k \<longrightarrow>
           increment_views self tbl
             = (update_views_count (Some k) tbl, Inr (self\<lparr>views_count := v0 + 1\<rparr>))
           \<and> stored_views (update_views_count (Some k) tbl) k = Some (v0 + 1))"
    by blast
qed

theorem C1_concurrent_increments_witness:
  "stored_views [example_article] 1 = Some 0
   \<and> map progress example_requests = [Called, Called, Called]
   \<and> map (\<lambda>q. pk (held q)) example_requests = [Some 1, Some 1, Some 1]
   \<and> map (count_list [0::nat, 1, 0, 2, 1, 2]) [0, 1, 2] = [2, 2, 2]
   \<and> map progress (snd (run [0, 1, 0, 2, 1, 2] ([example_article], example_requests)))
       = [Returned, Returned, Returned]
   \<and> stored_views (fst (run [0, 1, 0, 2, 1, 2] ([example_article], example_requests))) 1
       = Some (0 + int (length example_requests))
   \<and> map (\<lambda>q. views_count (held q))
         (snd (run [0, 1, 0, 2, 1, 2] ([example_article], example_requests)))
       = [2, 3, 3]"
proof -
  have st: "stored_views [example_article] 1 = Some 0"
    by code_simp
  have rq: "\<forall>q \<in> set example_requests. progress q = Called \<and> pk (held q) = Some 1"
    by (simp add: example_requests_def example_article_def)
  have sc: "\<forall>i < length example_requests. 2 \<le> count_list [0, 1, 0, 2, 1, 2] i"
    by (simp add: example_requests_def less_Suc_eq)
  have m1: "map progress example_requests = [Called, Called, Called]"
    by (simp add: example_requests_def)
  have m2: "map (\<lambda>q. pk (held q)) example_requests = [Some 1, Some 1, Some 1]"
    by (simp add: example_requests_def example_article_def)
  have m3: "map (count_list [0::nat, 1, 0, 2, 1, 2]) [0, 1, 2] = [2, 2, 2]"
    by simp
  have r1: "map progress (snd (run [0, 1, 0, 2, 1, 2] ([example_article], example_requests)))
       = [Returned, Returned, Returned]"
    by code_simp
  have r2: "map (\<lambda>q. views_count (held q))
         (snd (run [0, 1, 0, 2, 1, 2] ([example_article], example_requests)))
       = [2, 3, 3]"
    by code_simp
  from C1_concurrent_increments [of "[example_article]" 1 0 example_requests "[0, 1, 0, 2, 1, 2]"]
    st rq sc
  have total: "stored_views (fst (run [0, 1, 0, 2, 1, 2] ([example_article], example_requests))) 1
       = Some (0 + int (length example_requests))"
    by blast
  from st m1 m2 m3 r1 total r2 show ?thesis
    by (intro conjI)
qed

text \<open>
  C2. For every article saved without a slug, the slug assigned is the normalized base of
  the title when no existing article (soft-deleted ones included) has that slug, and
  otherwise \<open>base-k\<close> for the smallest \<open>k \<ge> 1\<close> such that no existing article has
  \<open>base-k\<close>; in both cases no existing article has the assigned slug, it is the slug
  of the row written, and the slugs of the table stay pairwise different. The
  normalizer is the framework's and the statement holds for every normalizer.
\<close>

theorem C2_unique_slug:
  assumes "slug self = []"
  shows "slug (Article_fill slugify (articles w) self) = generate_unique_slug slugify (articles w) self
    \<and> (slugify (title self) \<notin> slug ` set (articles w) \<longrightarrow>
          generate_unique_slug slugify (articles w) self = slugify (title self))
    \<and> (slugify (title self) \<in> slug ` set (articles w) \<longrightarrow>
          (\<exists>k \<ge> 1. generate_unique_slug slugify (articles w) self
                       = slugify (title self) @ ''-'' @ str_nat k
             \<and> (\<forall>j. 1 \<le> j \<and> j < k \<longrightarrow>
                    slugify (title self) @ ''-'' @ str_nat j \<in> slug ` set (articles w))))
    \<and> generate_unique_slug slugify (articles w) self \<notin> slug ` set (articles w)
    \<and> (Article_save slugify cache_delete None now self w = (w', Inr self') \<longrightarrow>
          self' \<in> set (articles w')
          \<and> slug self' = generate_unique_slug slugify (articles w) self
          \<and> (distinct (map pk (articles w)) \<and> distinct (map slug (articles w)) \<longrightarrow>
                distinct (map slug (articles w'))))"
proof -
  let ?s = "generate_unique_slug slugify (articles w) self"
  have fill: "slug (Article_fill slugify (articles w) self) = ?s"
    using assms by (rule Article_fill_slug)
  have unused: "?s \<notin> slug ` set (articles w)"
    using generate_unique_slug_spec [of "articles w" slugify self]
    by (simp add: slug_exists_iff)
  have saved: "self' \<in> set (articles w') \<and> slug self' = ?s
          \<and> (distinct (map pk (articles w)) \<and> distinct (map slug (articles w)) \<longrightarrow>
                distinct (map slug (articles w')))"
    if s: "Article_save slugify cache_delete None now self w = (w', Inr self')"
  proof -
    from Article_save_Inr(1) [OF s] fill have sl: "slug self' = ?s" by auto
    have d: "distinct (map slug (articles w'))"
      if "distinct (map pk (articles w))" "distinct (map slug (articles w))"
    proof -
      from Article_save_Inr(3) [OF s]
      show ?thesis
      proof
        assume "articles w' = articles w @ [self']"
        with that unused sl show ?thesis by auto
      next
        assume "articles w' = map (\<lambda>r. if pk r = pk self then self' else r) (articles w)"
        with that unused sl distinct_replace_slug [of "articles w" self' "pk self"]
        show ?thesis by simp
      qed
    qed
    with Article_save_Inr(2) [OF s] sl show ?thesis by simp
  qed
  from fill unused saved generate_unique_slug_spec [of "articles w" slugify self]
  show ?thesis by (simp add: slug_exists_iff)
qed

theorem C2_unique_slug_witness:
  "slug (new_article ''Hello, World'' ''Some content here'') = []
   \<and> slugify_spec (title (new_article ''Hello, World'' ''Some content here'')) = ''hello-world''
   \<and> map is_deleted (articles archived_world) = [True]
   \<and> ''hello-world'' \<in> slug ` set (articles archived_world)
   \<and> generate_unique_slug slugify_spec (articles archived_world)
        (new_article ''Hello, World'' ''Some content here'') = ''hello-world-1''
   \<and> ''hello-world-1'' \<notin> slug ` set (articles archived_world)
   \<and> Article_save slugify_spec working_delete None 5
         (new_article ''Hello, World'' ''Some content here'') archived_world
       = (archived_world\<lparr>articles := [example_article\<lparr>is_deleted := True, deleted_at := Some 30\<rparr>,
             (new_article ''Hello, World'' ''Some content here'')
               \<lparr>pk := Some 2, created_at := 5, updated_at := 5, slug := ''hello-world-1'',
                excerpt := ''Some content here''\<rparr>]\<rparr>,
          Inr ((new_article ''Hello, World'' ''Some content here'')
               \<lparr>pk := Some 2, created_at := 5, updated_at := 5, slug := ''hello-world-1'',
                excerpt := ''Some content here''\<rparr>))
   \<and> distinct (map pk (articles archived_world))
   \<and> distinct (map slug (articles archived_world))
   \<and> distinct (map slug (articles (archived_world\<lparr>articles := [example_article\<lparr>is_deleted := True, deleted_at := Some 30\<rparr>,
             (new_article ''Hello, World'' ''Some content here'')
               \<lparr>pk := Some 2, created_at := 5, updated_at := 5, slug := ''hello-world-1'',
                excerpt := ''Some content here''\<rparr>]\<rparr>)))"
proof -
  have pre: "slug (new_article ''Hello, World'' ''Some content here'') = []"
    by (simp add: new_article_def)
  have base: "slugify_spec (title (new_article ''Hello, World'' ''Some content here'')) = ''hello-world''"
    by code_simp
  have used: "''hello-world'' \<in> slug ` set (articles archived_world)"
    by (simp add: archived_world_def example_article_def)
  have del: "map is_deleted (articles archived_world) = [True]"
    by (simp add: archived_world_def)
  have gen: "generate_unique_slug slugify_spec (articles archived_world)
        (new_article ''Hello, World'' ''Some content here'') = ''hello-world-1''"
    by code_simp
  have run: "Article_save slugify_spec working_delete None 5
         (new_article ''Hello, World'' ''Some content here'') archived_world
       = (archived_world\<lparr>articles := [example_article\<lparr>is_deleted := True, deleted_at := Some 30\<rparr>,
             (new_article ''Hello, World'' ''Some content here'')
               \<lparr>pk := Some 2, created_at := 5, updated_at := 5, slug := ''hello-world-1'',
                excerpt := ''Some content here''\<rparr>]\<rparr>,
          Inr ((new_article ''Hello, World'' ''Some content here'')
               \<lparr>pk := Some 2, created_at := 5, updated_at := 5, slug := ''hello-world-1'',
                excerpt := ''Some content here''\<rparr>))"
    by code_simp
  have d: "distinct (map pk (articles archived_world)) \<and> distinct (map slug (articles archived_world))"
    by (simp add: archived_world_def)
  from C2_unique_slug [OF pre, of slugify_spec archived_world working_delete 5
      "archived_world\<lparr>articles := [example_article\<lparr>is_deleted := True, deleted_at := Some 30\<rparr>,
             (new_article ''Hello, World'' ''Some content here'')
               \<lparr>pk := Some 2, created_at := 5, updated_at := 5, slug := ''hello-world-1'',
                excerpt := ''Some content here''\<rparr>]\<rparr>"
      "(new_article ''Hello, World'' ''Some content here'')
               \<lparr>pk := Some 2, created_at := 5, updated_at := 5, slug := ''hello-world-1'',
                excerpt := ''Some content here''\<rparr>"] pre base used del gen run d
  show ?thesis by simp
qed

text \<open>
  C3. For every collection of article rows, the published view returns exactly the rows
  with \<open>is_deleted = False\<close> and \<open>is_published = True\<close>, the active view exactly the rows
  with \<open>is_deleted = False\<close> (each as often as the table holds it); an article that is
  neither published nor deleted is absent from the published view and present in the
  active view.
\<close>

theorem C3_visibility_views:
  "mset (PublishedArticleManager_get_queryset tbl)
     = filter_mset (\<lambda>a. is_deleted a = False \<and> is_published a = True) (mset tbl)
   \<and> mset (ActiveObjectsManager_get_queryset tbl)
     = filter_mset (\<lambda>a. is_deleted a = False) (mset tbl)
   \<and> (a \<in> set tbl \<and> is_published a = False \<and> is_deleted a = False \<longrightarrow>
        a \<notin> set (PublishedArticleManager_get_queryset tbl)
        \<and> a \<in> set (ActiveObjectsManager_get_queryset tbl))"
proof -
  have p: "(\<lambda>a::article. is_published a \<and> \<not> is_deleted a)
             = (\<lambda>a. \<not> is_deleted a \<and> is_published a)"
    by auto
  show ?thesis
    by (simp add: PublishedArticleManager_get_queryset_def
          ActiveObjectsManager_get_queryset_def Manager_get_queryset_def p)
qed

theorem C3_visibility_views_witness:
  "example_article\<lparr>is_published := False\<rparr> \<in> set [example_article\<lparr>is_published := False\<rparr>]
   \<and> is_published (example_article\<lparr>is_published := False\<rparr>) = False
   \<and> is_deleted (example_article\<lparr>is_published := False\<rparr>) = False
   \<and> example_article\<lparr>is_published := False\<rparr>
        \<notin> set (PublishedArticleManager_get_queryset [example_article\<lparr>is_published := False\<rparr>])
   \<and> example_article\<lparr>is_published := False\<rparr>
        \<in> set (ActiveObjectsManager_get_queryset [example_article\<lparr>is_published := False\<rparr>])"
  using C3_visibility_views [of "[example_article\<lparr>is_published := False\<rparr>]"
      "example_article\<lparr>is_published := False\<rparr>"]
  by (simp add: example_article_def)

text \<open>
  C4. \<open>soft_delete\<close> and \<open>restore\<close> call \<^verbatim>\<open>save(update_fields=['is_deleted', 'deleted_at'])\<close>:
  the write names two columns, and a write with \<^verbatim>\<open>update_fields\<close> sets an \<^verbatim>\<open>auto_now\<close>
  field only when it names it. So \<open>updated_at\<close> does not advance: whenever \<open>soft_delete\<close> and then \<open>restore\<close>
  succeed on a Comment or on an Article, at any two readings of the clock, \<open>updated_at\<close>
  is what it was before, on the instance and on every stored row. The rest of the claim
  holds: afterwards \<open>is_deleted\<close> is false and \<open>deleted_at\<close> is null; a Comment that was
  not soft-deleted is identical to what it was, an Article that was not soft-deleted is
  identical in every field other than \<open>slug\<close> and \<open>excerpt\<close> (which \<^verbatim>\<open>Article.save\<close>
  assigns on the instance when they are empty), and when the stored row was not
  soft-deleted the table is identical to what it was. The other table is unchanged.
\<close>

theorem C4_updated_at_not_advanced:
  "(soft_delete (Comment_save cache_delete) t1 c w = (w1, Inr c1)
      \<and> restore (Comment_save cache_delete) t2 c1 w1 = (w2, Inr c2) \<longrightarrow>
        updated_at c2 = updated_at c
        \<and> map updated_at (comments w2) = map updated_at (comments w)
        \<and> is_deleted c2 = False \<and> deleted_at c2 = None
        \<and> (is_deleted c = False \<and> deleted_at c = None \<longrightarrow> c2 = c)
        \<and> ((\<forall>r \<in> set (comments w). pk r = pk c \<longrightarrow> is_deleted r = False \<and> deleted_at r = None) \<longrightarrow>
              comments w2 = comments w)
        \<and> articles w2 = articles w)
   \<and> (soft_delete (Article_save slugify cache_delete) t1 a w = (w1, Inr a1)
      \<and> restore (Article_save slugify cache_delete) t2 a1 w1 = (w2, Inr a2) \<longrightarrow>
        updated_at a2 = updated_at a
        \<and> map updated_at (articles w2) = map updated_at (articles w)
        \<and> is_deleted a2 = False \<and> deleted_at a2 = None
        \<and> (is_deleted a = False \<and> deleted_at a = None \<longrightarrow>
              a2\<lparr>slug := slug a, excerpt := excerpt a\<rparr> = a)
        \<and> ((\<forall>r \<in> set (articles w). pk r = pk a \<longrightarrow> is_deleted r = False \<and> deleted_at r = None) \<longrightarrow>
              articles w2 = articles w)
        \<and> comments w2 = comments w)"
proof (intro conjI impI)
  assume h: "soft_delete (Comment_save cache_delete) t1 c w = (w1, Inr c1)
      \<and> restore (Comment_save cache_delete) t2 c1 w1 = (w2, Inr c2)"
  let ?d = "c\<lparr>is_deleted := True, deleted_at := Some t1\<rparr>"
  from h have s1: "Comment_save cache_delete (Some [''is_deleted'', ''deleted_at'']) t1 ?d w = (w1, Inr c1)"
    by (simp add: soft_delete_def)
  note d = Comment_save_soft_fields [OF s1]
  let ?u = "c1\<lparr>is_deleted := False, deleted_at := None\<rparr>"
  from h have s2: "Comment_save cache_delete (Some [''is_deleted'', ''deleted_at'']) t2 ?u w1 = (w2, Inr c2)"
    by (simp add: restore_def)
  note u = Comment_save_soft_fields [OF s2]
  have c2: "c2 = c\<lparr>is_deleted := False, deleted_at := None\<rparr>"
    using d(1) u(1) by simp
  have tbl: "comments w2 =
      map (\<lambda>r. if pk r = pk c then r\<lparr>is_deleted := False, deleted_at := None\<rparr> else r)
        (map (\<lambda>r. if pk r = pk c then r\<lparr>is_deleted := True, deleted_at := Some t1\<rparr> else r)
           (comments w))"
    using d(1,2) u(2) by simp
  show "updated_at c2 = updated_at c" and "is_deleted c2 = False" and "deleted_at c2 = None"
    using c2 by simp_all
  show "map updated_at (comments w2) = map updated_at (comments w)"
    unfolding tbl by (simp only: flag_rows_updated_at)
  show "articles w2 = articles w"
    using d(3) u(3) by simp
  show "c2 = c" if "is_deleted c = False \<and> deleted_at c = None"
    using c2 that by (simp add: flags_id)
  show "comments w2 = comments w"
    if "\<forall>r \<in> set (comments w). pk r = pk c \<longrightarrow> is_deleted r = False \<and> deleted_at r = None"
    unfolding tbl using that by (rule restored_table)
next
  assume h: "soft_delete (Article_save slugify cache_delete) t1 a w = (w1, Inr a1)
      \<and> restore (Article_save slugify cache_delete) t2 a1 w1 = (w2, Inr a2)"
  let ?d = "a\<lparr>is_deleted := True, deleted_at := Some t1\<rparr>"
  from h have s1: "Article_save slugify cache_delete (Some [''is_deleted'', ''deleted_at'']) t1 ?d w = (w1, Inr a1)"
    by (simp add: soft_delete_def)
  note d = Article_save_soft_fields [OF s1]
  let ?u = "a1\<lparr>is_deleted := False, deleted_at := None\<rparr>"
  from h have s2: "Article_save slugify cache_delete (Some [''is_deleted'', ''deleted_at'']) t2 ?u w1 = (w2, Inr a2)"
    by (simp add: restore_def)
  note u = Article_save_soft_fields [OF s2]
  have pk1: "pk a1 = pk a"
    using d(1) by (simp add: Article_fill_keeps)
  have tbl: "articles w2 =
      map (\<lambda>r. if pk r = pk a then r\<lparr>is_deleted := False, deleted_at := None\<rparr> else r)
        (map (\<lambda>r. if pk r = pk a then r\<lparr>is_deleted := True, deleted_at := Some t1\<rparr> else r)
           (articles w))"
    using d(2) u(2) pk1 by simp
  show "updated_at a2 = updated_at a"
    using d(1) u(1) by (simp add: Article_fill_updated_at)
  show "map updated_at (articles w2) = map updated_at (articles w)"
    unfolding tbl by (simp only: flag_rows_updated_at)
  show "is_deleted a2 = False" and "deleted_at a2 = None"
    using u(1) by (simp_all add: Article_fill_keeps)
  show "comments w2 = comments w"
    using d(3) u(3) by simp
  show "a2\<lparr>slug := slug a, excerpt := excerpt a\<rparr> = a"
    if "is_deleted a = False \<and> deleted_at a = None"
  proof -
    have "a2\<lparr>slug := slug a, excerpt := excerpt a\<rparr> = ?u\<lparr>slug := slug a, excerpt := excerpt a\<rparr>"
      unfolding u(1) by (rule Article_fill_others)
    also have "\<dots> = (a1\<lparr>slug := slug a, excerpt := excerpt a\<rparr>)\<lparr>is_deleted := False, deleted_at := None\<rparr>"
      by simp
    also have "a1\<lparr>slug := slug a, excerpt := excerpt a\<rparr> = ?d\<lparr>slug := slug a, excerpt := excerpt a\<rparr>"
      unfolding d(1) by (rule Article_fill_others)
    also have "(?d\<lparr>slug := slug a, excerpt := excerpt a\<rparr>)\<lparr>is_deleted := False, deleted_at := None\<rparr>
        = a\<lparr>is_deleted := False, deleted_at := None\<rparr>"
      by simp
    also have "\<dots> = a"
      using that by (simp add: flags_id)
    finally show ?thesis .
  qed
  show "articles w2 = articles w"
    if "\<forall>r \<in> set (articles w). pk r = pk a \<longrightarrow> is_deleted r = False \<and> deleted_at r = None"
    unfolding tbl using that by (rule restored_table)
qed


theorem C4_updated_at_not_advanced_witness:
  "is_deleted example_comment = False \<and> deleted_at example_comment = None
   \<and> updated_at example_comment = 20
   \<and> soft_delete (Comment_save working_delete) 50 example_comment example_world
       = (example_world\<lparr>comments := deleted_thread,
            cache := [''article:1'', ''article:slug:hello-world'']\<rparr>,
          Inr deleted_comment)
   \<and> restore (Comment_save working_delete) 60 deleted_comment
        (example_world\<lparr>comments := deleted_thread,
           cache := [''article:1'', ''article:slug:hello-world'']\<rparr>)
       = (example_world\<lparr>cache := [''article:1'', ''article:slug:hello-world'']\<rparr>,
          Inr example_comment)
   \<and> map updated_at
        (comments (example_world\<lparr>cache := [''article:1'', ''article:slug:hello-world'']\<rparr>))
       = [20, 20, 20, 20, 20, 20, 20, 20, 20]
   \<and> comments (example_world\<lparr>cache := [''article:1'', ''article:slug:hello-world'']\<rparr>)
       = comments example_world
   \<and> is_deleted example_article = False \<and> deleted_at example_article = None
   \<and> updated_at example_article = 10
   \<and> soft_delete (Article_save slugify_spec working_delete) 50 example_article example_world
       = (example_world\<lparr>articles := [example_article\<lparr>is_deleted := True, deleted_at := Some 50\<rparr>],
            cache := [''comment:1'', ''article:1:comments'']\<rparr>,
          Inr (example_article\<lparr>is_deleted := True, deleted_at := Some 50\<rparr>))
   \<and> restore (Article_save slugify_spec working_delete) 60
        (example_article\<lparr>is_deleted := True, deleted_at := Some 50\<rparr>)
        (example_world\<lparr>articles := [example_article\<lparr>is_deleted := True, deleted_at := Some 50\<rparr>],
           cache := [''comment:1'', ''article:1:comments'']\<rparr>)
       = (example_world\<lparr>cache := [''comment:1'', ''article:1:comments'']\<rparr>, Inr example_article)
   \<and> map updated_at (articles (example_world\<lparr>cache := [''comment:1'', ''article:1:comments'']\<rparr>))
       = [10]"
proof -
  let ?w1 = "example_world\<lparr>comments := deleted_thread,
            cache := [''article:1'', ''article:slug:hello-world'']\<rparr>"
  let ?w2 = "example_world\<lparr>cache := [''article:1'', ''article:slug:hello-world'']\<rparr>"
  let ?a1 = "example_article\<lparr>is_deleted := True, deleted_at := Some 50\<rparr>"
  let ?v1 = "example_world\<lparr>articles := [?a1], cache := [''comment:1'', ''article:1:comments'']\<rparr>"
  let ?v2 = "example_world\<lparr>cache := [''comment:1'', ''article:1:comments'']\<rparr>"
  have c_pre: "is_deleted example_comment = False \<and> deleted_at example_comment = None"
    by (simp add: example_comment_def)
  have c_upd: "updated_at example_comment = 20"
    by (simp add: example_comment_def)
  have c_del: "soft_delete (Comment_save working_delete) 50 example_comment example_world
      = (?w1, Inr deleted_comment)"
    by code_simp
  have c_res: "restore (Comment_save working_delete) 60 deleted_comment ?w1 = (?w2, Inr example_comment)"
    by code_simp
  have c_rows: "map updated_at (comments example_world) = [20, 20, 20, 20, 20, 20, 20, 20, 20]"
    by code_simp
  have c_live: "list_all (\<lambda>r. pk r = pk example_comment \<longrightarrow> is_deleted r = False \<and> deleted_at r = None)
      (comments example_world)"
    by code_simp
  from C4_updated_at_not_advanced [where cache_delete = working_delete and ?t1.0 = 50
      and c = example_comment and w = example_world and ?w1.0 = ?w1 and ?c1.0 = deleted_comment
      and ?t2.0 = 60 and ?w2.0 = ?w2 and ?c2.0 = example_comment] c_del c_res
  have c_thm: "map updated_at (comments ?w2) = map updated_at (comments example_world)"
    by blast
  from C4_updated_at_not_advanced [where cache_delete = working_delete and ?t1.0 = 50
      and c = example_comment and w = example_world and ?w1.0 = ?w1 and ?c1.0 = deleted_comment
      and ?t2.0 = 60 and ?w2.0 = ?w2 and ?c2.0 = example_comment] c_del c_res c_live
  have c_tbl: "comments ?w2 = comments example_world"
    unfolding list_all_iff by blast
  have a_pre: "is_deleted example_article = False \<and> deleted_at example_article = None"
    by (simp add: example_article_def)
  have a_upd: "updated_at example_article = 10"
    by (simp add: example_article_def)
  have a_del: "soft_delete (Article_save slugify_spec working_delete) 50 example_article example_world
      = (?v1, Inr ?a1)"
    by code_simp
  have a_res: "restore (Article_save slugify_spec working_delete) 60 ?a1 ?v1 = (?v2, Inr example_article)"
    by code_simp
  have a_rows: "map updated_at (articles example_world) = [10]"
    by code_simp
  from C4_updated_at_not_advanced [where cache_delete = working_delete and ?t1.0 = 50
      and a = example_article and w = example_world and ?w1.0 = ?v1 and ?a1.0 = ?a1
      and ?t2.0 = 60 and ?w2.0 = ?v2 and ?a2.0 = example_article and slugify = slugify_spec]
    a_del a_res
  have a_thm: "map updated_at (articles ?v2) = map updated_at (articles example_world)"
    by blast
  from c_thm c_rows
  have c_fin: "map updated_at (comments ?w2) = [20, 20, 20, 20, 20, 20, 20, 20, 20]"
    by (rule trans)
  from a_thm a_rows
  have a_fin: "map updated_at (articles ?v2) = [10]"
    by (rule trans)
  from c_pre c_upd c_del c_res c_fin c_tbl a_pre a_upd a_del a_res a_fin
  show ?thesis
    by (intro conjI) (erule conjunct1 conjunct2 | assumption)+
qed

text \<open>
  C5, as the claim states it, fails for a content longer than 200 characters: the stored
  excerpt is the first 200 characters followed by an ellipsis.
\<close>

theorem C5_excerpt_counterexample:
  "article.content (new_article ''Long read'' (replicate 201 CHR ''a'')) \<noteq> []
   \<and> excerpt (new_article ''Long read'' (replicate 201 CHR ''a'')) = []
   \<and> map excerpt (articles (fst (Article_save slugify_spec working_delete None 5
            (new_article ''Long read'' (replicate 201 CHR ''a'')) example_world)))
       = [''Some content.'', replicate 200 CHR ''a'' @ ''...'']
   \<and> replicate 200 CHR ''a'' @ ''...''
       \<noteq> take 200 (article.content (new_article ''Long read'' (replicate 201 CHR ''a'')))"
  by code_simp

text \<open>
  C5 (amended). For every article saved with non-empty content and an empty excerpt, the
  stored excerpt is the content itself when the content has at most 200 characters (it
  then equals \<^verbatim>\<open>content[:200]\<close>), and \<^verbatim>\<open>content[:200] + '...'\<close> when it is longer.
\<close>

theorem C5_excerpt:
  "excerpt self = [] \<and> article.content self \<noteq> []
     \<and> Article_save slugify cache_delete None now self w = (w', Inr self') \<longrightarrow>
   self' \<in> set (articles w')
   \<and> excerpt self' = (if length (article.content self) > 200
                       then take 200 (article.content self) @ ''...''
                       else article.content self)
   \<and> (length (article.content self) \<le> 200 \<longrightarrow> excerpt self' = take 200 (article.content self))"
proof
  assume h: "excerpt self = [] \<and> article.content self \<noteq> []
     \<and> Article_save slugify cache_delete None now self w = (w', Inr self')"
  then have s: "Article_save slugify cache_delete None now self w = (w', Inr self')" by simp
  from Article_save_Inr(1) [OF s] obtain c p where
    "self' = (Article_fill slugify (articles w) self)\<lparr>updated_at := now, created_at := c, pk := p\<rparr>"
    by blast
  then have "excerpt self' = excerpt (Article_fill slugify (articles w) self)" by simp
  also have "\<dots> = (if length (article.content self) > 200
                       then take 200 (article.content self) @ ''...''
                       else article.content self)"
    using h by (simp add: Article_fill_def Let_def)
  finally have e: "excerpt self' = (if length (article.content self) > 200
                       then take 200 (article.content self) @ ''...''
                       else article.content self)" .
  with Article_save_Inr(2) [OF s]
  show "self' \<in> set (articles w')
   \<and> excerpt self' = (if length (article.content self) > 200
                       then take 200 (article.content self) @ ''...''
                       else article.content self)
   \<and> (length (article.content self) \<le> 200 \<longrightarrow> excerpt self' = take 200 (article.content self))"
    by simp
qed

theorem C5_excerpt_witness:
  "excerpt (new_article ''Short'' ''Some content here'') = []
   \<and> article.content (new_article ''Short'' ''Some content here'') \<noteq> []
   \<and> Article_save slugify_spec working_delete None 5
         (new_article ''Short'' ''Some content here'') example_world
       = (example_world\<lparr>articles := [example_article,
             (new_article ''Short'' ''Some content here'')
               \<lparr>pk := Some 2, created_at := 5, updated_at := 5, slug := ''short'',
                excerpt := ''Some content here''\<rparr>]\<rparr>,
          Inr ((new_article ''Short'' ''Some content here'')
               \<lparr>pk := Some 2, created_at := 5, updated_at := 5, slug := ''short'',
                excerpt := ''Some content here''\<rparr>))
   \<and> excerpt ((new_article ''Short'' ''Some content here'')
               \<lparr>pk := Some 2, created_at := 5, updated_at := 5, slug := ''short'',
                excerpt := ''Some content here''\<rparr>)
       = take 200 (article.content (new_article ''Short'' ''Some content here''))"
proof -
  have run: "Article_save slugify_spec working_delete None 5
         (new_article ''Short'' ''Some content here'') example_world
       = (example_world\<lparr>articles := [example_article,
             (new_article ''Short'' ''Some content here'')
               \<lparr>pk := Some 2, created_at := 5, updated_at := 5, slug := ''short'',
                excerpt := ''Some content here''\<rparr>]\<rparr>,
          Inr ((new_article ''Short'' ''Some content here'')
               \<lparr>pk := Some 2, created_at := 5, updated_at := 5, slug := ''short'',
                excerpt := ''Some content here''\<rparr>))"
    by code_simp
  have pre: "excerpt (new_article ''Short'' ''Some content here'') = []
      \<and> article.content (new_article ''Short'' ''Some content here'') \<noteq> []"
    by (simp add: new_article_def)
  have len: "length (article.content (new_article ''Short'' ''Some content here'')) \<le> 200"
    by (simp add: new_article_def)
  from C5_excerpt [of "new_article ''Short'' ''Some content here''" slugify_spec
      working_delete 5 example_world] pre run len
  show ?thesis by simp
qed

text \<open>
  C6. On a comment that is itself a reply, \<open>get_replies\<close> returns the empty sequence
  whatever children the comment has. On a stored top-level comment it returns the
  rendering of its active children (rows of the table whose parent is that comment and
  whose \<open>is_deleted\<close> is false), newest first, cut after five: all of them when there
  are at most five, otherwise five of them, none older than an active child left out.
\<close>

theorem C6_get_replies:
  "(parent obj \<noteq> None \<longrightarrow> get_replies user_str tbl obj = Inr [])
   \<and> (parent obj = None \<and> pk obj = Some i \<longrightarrow>
        (\<exists>rows. get_replies user_str tbl obj = Inr (map (CommentListSerializer user_str) rows)
           \<and> length rows = min 5 (length (filter (\<lambda>c. parent c = Some i \<and> is_deleted c = False) tbl))
           \<and> length rows \<le> 5
           \<and> (\<forall>r \<in> set rows. r \<in> set tbl \<and> parent r = Some i \<and> is_deleted r = False)
           \<and> mset rows \<subseteq># mset (filter (\<lambda>c. parent c = Some i \<and> is_deleted c = False) tbl)
           \<and> sorted (rev (map created_at rows))
           \<and> (\<forall>c \<in># mset (filter (\<lambda>c. parent c = Some i \<and> is_deleted c = False) tbl) - mset rows.
                 \<forall>r \<in> set rows. created_at c \<le> created_at r)))"
proof (intro conjI impI)
  assume "parent obj \<noteq> None"
  then show "get_replies user_str tbl obj = Inr []"
    by (simp add: get_replies_def is_reply_def)
next
  assume top: "parent obj = None \<and> pk obj = Some i"
  define children where "children = filter (\<lambda>c. parent c = Some i \<and> is_deleted c = False) tbl"
  define ordered where "ordered = Meta_ordering children"
  define rows where "rows = take 5 ordered"
  have ch: "filter (\<lambda>c. is_deleted c = False) (filter (\<lambda>c. parent c = Some i) tbl) = children"
    by (simp add: children_def conj_commute)
  have run: "get_replies user_str tbl obj = Inr (map (CommentListSerializer user_str) rows)"
    using top
    by (simp add: get_replies_def is_reply_def replies_def Manager_get_queryset_def
          rows_def ordered_def children_def conj_commute)
  have ms: "mset ordered = mset children"
    by (simp add: ordered_def Meta_ordering_def)
  then have lo: "length ordered = length children"
    by (rule mset_eq_length)
  have len: "length rows = min 5 (length children)"
    by (simp add: rows_def lo min.commute)
  have split: "ordered = rows @ drop 5 ordered"
    by (simp add: rows_def)
  have sub: "mset rows \<subseteq># mset children"
  proof -
    have "mset children = mset rows + mset (drop 5 ordered)"
      using ms split by (metis mset_append)
    then show ?thesis by simp
  qed
  have rest: "mset children - mset rows = mset (drop 5 ordered)"
  proof -
    have "mset children = mset rows + mset (drop 5 ordered)"
      using ms split by (metis mset_append)
    then show ?thesis by simp
  qed
  have mem: "\<forall>r \<in> set rows. r \<in> set tbl \<and> parent r = Some i \<and> is_deleted r = False"
  proof
    fix r assume "r \<in> set rows"
    then have "r \<in># mset children" using sub by (meson in_multiset_in_set mset_subset_eqD)
    then show "r \<in> set tbl \<and> parent r = Some i \<and> is_deleted r = False"
      by (simp add: children_def)
  qed
  have so: "sorted (map (\<lambda>r. - int (created_at r)) ordered)"
    by (simp add: ordered_def Meta_ordering_def)
  have so2: "sorted (map (\<lambda>r. - int (created_at r)) rows @ map (\<lambda>r. - int (created_at r)) (drop 5 ordered))"
    using so split by (metis map_append)
  have newest: "\<forall>c \<in># mset children - mset rows. \<forall>r \<in> set rows. created_at c \<le> created_at r"
  proof (intro ballI)
    fix c r assume "c \<in># mset children - mset rows" and r: "r \<in> set rows"
    then have c: "c \<in> set (drop 5 ordered)" by (simp add: rest)
    from so2 r c have "- int (created_at r) \<le> - int (created_at c)"
      by (auto simp: sorted_append)
    then show "created_at c \<le> created_at r" by simp
  qed
  have desc: "sorted (rev (map created_at rows))"
  proof -
    from so2 have "sorted (map (\<lambda>r. - int (created_at r)) rows)"
      by (simp add: sorted_append)
    then have "sorted_wrt (\<lambda>x y. created_at y \<le> created_at x) rows"
      by (simp add: sorted_map sorted_wrt_map)
    then have "sorted_wrt (\<lambda>x y. y \<le> x) (map created_at rows)"
      by (simp add: sorted_wrt_map)
    then show ?thesis
      by (simp add: sorted_wrt_rev)
  qed
  have le5: "length rows \<le> 5" by (simp add: rows_def)
  from run len le5 mem sub desc newest
  show "\<exists>rows. get_replies user_str tbl obj = Inr (map (CommentListSerializer user_str) rows)
           \<and> length rows = min 5 (length (filter (\<lambda>c. parent c = Some i \<and> is_deleted c = False) tbl))
           \<and> length rows \<le> 5
           \<and> (\<forall>r \<in> set rows. r \<in> set tbl \<and> parent r = Some i \<and> is_deleted r = False)
           \<and> mset rows \<subseteq># mset (filter (\<lambda>c. parent c = Some i \<and> is_deleted c = False) tbl)
           \<and> sorted (rev (map created_at rows))
           \<and> (\<forall>c \<in># mset (filter (\<lambda>c. parent c = Some i \<and> is_deleted c = False) tbl) - mset rows.
                 \<forall>r \<in> set rows. created_at c \<le> created_at r)"
    unfolding children_def by blast
qed

theorem C6_get_replies_witness:
  "parent (example_comment\<lparr>pk := Some 2, created_at := 21, parent := Some 1\<rparr>) \<noteq> None
   \<and> example_comment\<lparr>pk := Some 4, created_at := 23, parent := Some 2\<rparr> \<in> set example_thread
   \<and> get_replies str_nat example_thread
        (example_comment\<lparr>pk := Some 2, created_at := 21, parent := Some 1\<rparr>) = Inr []
   \<and> parent example_comment = None \<and> pk example_comment = Some 1
   \<and> length (filter (\<lambda>c. parent c = Some 1 \<and> is_deleted c = False) example_thread) = 6
   \<and> get_replies str_nat example_thread example_comment
       = Inr (map (CommentListSerializer str_nat)
           [example_comment\<lparr>pk := Some 9, created_at := 28, parent := Some 1\<rparr>,
            example_comment\<lparr>pk := Some 8, created_at := 27, parent := Some 1\<rparr>,
            example_comment\<lparr>pk := Some 7, created_at := 26, parent := Some 1\<rparr>,
            example_comment\<lparr>pk := Some 6, created_at := 25, parent := Some 1\<rparr>,
            example_comment\<lparr>pk := Some 5, created_at := 24, parent := Some 1\<rparr>])
   \<and> (\<exists>rows. get_replies str_nat example_thread example_comment
                 = Inr (map (CommentListSerializer str_nat) rows)
          \<and> length rows = 5
          \<and> sorted (rev (map created_at rows)))"
proof -
  have a: "parent (example_comment\<lparr>pk := Some 2, created_at := 21, parent := Some 1\<rparr>) \<noteq> None"
    by simp
  have b: "example_comment\<lparr>pk := Some 4, created_at := 23, parent := Some 2\<rparr> \<in> set example_thread"
    by (simp add: example_thread_def)
  have c: "parent example_comment = None \<and> pk example_comment = Some 1"
    by (simp add: example_comment_def)
  have n: "length (filter (\<lambda>c. parent c = Some 1 \<and> is_deleted c = False) example_thread) = 6"
    by (simp add: example_thread_def example_comment_def)
  have ev: "get_replies str_nat example_thread example_comment
       = Inr (map (CommentListSerializer str_nat)
           [example_comment\<lparr>pk := Some 9, created_at := 28, parent := Some 1\<rparr>,
            example_comment\<lparr>pk := Some 8, created_at := 27, parent := Some 1\<rparr>,
            example_comment\<lparr>pk := Some 7, created_at := 26, parent := Some 1\<rparr>,
            example_comment\<lparr>pk := Some 6, created_at := 25, parent := Some 1\<rparr>,
            example_comment\<lparr>pk := Some 5, created_at := 24, parent := Some 1\<rparr>])"
    by code_simp
  from C6_get_replies [of "example_comment\<lparr>pk := Some 2, created_at := 21, parent := Some 1\<rparr>"
      str_nat example_thread] a
  have r: "get_replies str_nat example_thread
        (example_comment\<lparr>pk := Some 2, created_at := 21, parent := Some 1\<rparr>) = Inr []"
    by blast
  from C6_get_replies [of example_comment str_nat example_thread 1] c n
  have t: "\<exists>rows. get_replies str_nat example_thread example_comment
                 = Inr (map (CommentListSerializer str_nat) rows)
          \<and> length rows = 5
          \<and> sorted (rev (map created_at rows))"
    by auto
  from a b r c n ev t show ?thesis
    by (intro conjI) simp_all
qed

text \<open>
  C7. The check \<open>validate_parent\<close> compares the parent's article id with the raw value the
  request gave under the key \<^verbatim>\<open>article\<close>. A partial update that changes only the parent
  carries no such key: the comparison is against \<^verbatim>\<open>str(None)\<close> and the parent is
  rejected although it belongs to the article of the comment being updated.
\<close>

theorem C7_validate_parent_partial_update:
  "comment.article (example_comment\<lparr>pk := Some 3\<rparr>)
     = comment.article (example_comment\<lparr>pk := Some 7\<rparr>)
   \<and> validate_parent [''parent'' \<mapsto> RawInt 3] (Some (example_comment\<lparr>pk := Some 3\<rparr>))
     = Inl (ValidationError parent_mismatch)"
  by code_simp

text \<open>
  C8, as the claim states it, fails when the cache backend raises: the receivers of
  \<^verbatim>\<open>post_save\<close> have no exception handler, so the error of \<^verbatim>\<open>cache.delete\<close> reaches the
  caller of the write, after the row was written.
\<close>

theorem C8_cache_error_counterexample:
  "Article_save slugify_spec unavailable_delete None 5
      (new_article ''Short'' ''Some content here'') example_world
     = (example_world\<lparr>articles := [example_article,
             (new_article ''Short'' ''Some content here'')
               \<lparr>pk := Some 2, created_at := 5, updated_at := 5, slug := ''short'',
                excerpt := ''Some content here''\<rparr>]\<rparr>,
        Inl (CacheError ''unavailable''))
   \<and> snd (soft_delete (Comment_save unavailable_delete) 50 example_comment example_world)
     = Inl (CacheError ''unavailable'')"
  by code_simp

text \<open>
  C8 (amended). For every create, update or soft-delete of an Article or a Comment whose
  row write succeeds: if \<^verbatim>\<open>cache.delete\<close> raises on any key of the receiver - the first,
  the second or, for an Article, the third - the write returns that error to its caller,
  it is not swallowed, with the row written and the cache as the deletions before it
  left it; if no
  \<^verbatim>\<open>cache.delete\<close> raises, the write succeeds. A soft delete is the save of the two
  fields \<^verbatim>\<open>is_deleted\<close> and \<^verbatim>\<open>deleted_at\<close>, so the same holds for it.
\<close>

theorem C8_cache_errors_propagate:
  "(Model_save article_violates uf now (Article_fill slugify (articles w) a) (articles w) = Inr (a', tbl')
      \<and> cache_delete (''article:'' @ str_pk (pk a')) (cache w) = Inl e \<longrightarrow>
        Article_save slugify cache_delete uf now a w = (w\<lparr>articles := tbl'\<rparr>, Inl e))
   \<and> (Model_save article_violates uf now (Article_fill slugify (articles w) a) (articles w) = Inr (a', tbl')
      \<and> cache_delete (''article:'' @ str_pk (pk a')) (cache w) = Inr s1
      \<and> cache_delete (''article:slug:'' @ slug a') s1 = Inl e \<longrightarrow>
        Article_save slugify cache_delete uf now a w = (w\<lparr>articles := tbl', cache := s1\<rparr>, Inl e))
   \<and> (Model_save article_violates uf now (Article_fill slugify (articles w) a) (articles w) = Inr (a', tbl')
      \<and> cache_delete (''article:'' @ str_pk (pk a')) (cache w) = Inr s1
      \<and> cache_delete (''article:slug:'' @ slug a') s1 = Inr s2
      \<and> cache_delete ''articles:list:*'' s2 = Inl e \<longrightarrow>
        Article_save slugify cache_delete uf now a w = (w\<lparr>articles := tbl', cache := s2\<rparr>, Inl e))
   \<and> (Model_save article_violates uf now (Article_fill slugify (articles w) a) (articles w) = Inr (a', tbl')
      \<and> cache_delete (''article:'' @ str_pk (pk a')) (cache w) = Inr s1
      \<and> cache_delete (''article:slug:'' @ slug a') s1 = Inr s2
      \<and> cache_delete ''articles:list:*'' s2 = Inr s3 \<longrightarrow>
        Article_save slugify cache_delete uf now a w = (w\<lparr>articles := tbl', cache := s3\<rparr>, Inr a'))
   \<and> (Model_save comment_violates uf now c (comments w) = Inr (c', tbl'')
      \<and> cache_delete (''comment:'' @ str_pk (pk c')) (cache w) = Inl e \<longrightarrow>
        Comment_save cache_delete uf now c w = (w\<lparr>comments := tbl''\<rparr>, Inl e))
   \<and> (Model_save comment_violates uf now c (comments w) = Inr (c', tbl'')
      \<and> cache_delete (''comment:'' @ str_pk (pk c')) (cache w) = Inr s1
      \<and> cache_delete (''article:'' @ str_nat (comment.article c') @ '':comments'') s1 = Inl e \<longrightarrow>
        Comment_save cache_delete uf now c w = (w\<lparr>comments := tbl'', cache := s1\<rparr>, Inl e))
   \<and> (Model_save comment_violates uf now c (comments w) = Inr (c', tbl'')
      \<and> cache_delete (''comment:'' @ str_pk (pk c')) (cache w) = Inr s1
      \<and> cache_delete (''article:'' @ str_nat (comment.article c') @ '':comments'') s1 = Inr s2 \<longrightarrow>
        Comment_save cache_delete uf now c w = (w\<lparr>comments := tbl'', cache := s2\<rparr>, Inr c'))
   \<and> soft_delete (Article_save slugify cache_delete) now a w
       = Article_save slugify cache_delete (Some [''is_deleted'', ''deleted_at'']) now
           (a\<lparr>is_deleted := True, deleted_at := Some now\<rparr>) w
   \<and> soft_delete (Comment_save cache_delete) now c w
       = Comment_save cache_delete (Some [''is_deleted'', ''deleted_at'']) now
           (c\<lparr>is_deleted := True, deleted_at := Some now\<rparr>) w"
proof (intro conjI impI)
  assume h: "Model_save article_violates uf now (Article_fill slugify (articles w) a) (articles w) = Inr (a', tbl')
      \<and> cache_delete (''article:'' @ str_pk (pk a')) (cache w) = Inl e"
  then have "invalidate_article_cache cache_delete a' (cache (w\<lparr>articles := tbl'\<rparr>)) = (cache w, Some e)"
    by (simp add: invalidate_article_cache_steps)
  with h show "Article_save slugify cache_delete uf now a w = (w\<lparr>articles := tbl'\<rparr>, Inl e)"
    by (simp add: Article_save_written post_save_def)
next
  assume h: "Model_save article_violates uf now (Article_fill slugify (articles w) a) (articles w) = Inr (a', tbl')
      \<and> cache_delete (''article:'' @ str_pk (pk a')) (cache w) = Inr s1
      \<and> cache_delete (''article:slug:'' @ slug a') s1 = Inl e"
  then have "invalidate_article_cache cache_delete a' (cache (w\<lparr>articles := tbl'\<rparr>)) = (s1, Some e)"
    by (simp add: invalidate_article_cache_steps)
  with h show "Article_save slugify cache_delete uf now a w = (w\<lparr>articles := tbl', cache := s1\<rparr>, Inl e)"
    by (simp add: Article_save_written post_save_def)
next
  assume h: "Model_save article_violates uf now (Article_fill slugify (articles w) a) (articles w) = Inr (a', tbl')
      \<and> cache_delete (''article:'' @ str_pk (pk a')) (cache w) = Inr s1
      \<and> cache_delete (''article:slug:'' @ slug a') s1 = Inr s2
      \<and> cache_delete ''articles:list:*'' s2 = Inl e"
  then have "invalidate_article_cache cache_delete a' (cache (w\<lparr>articles := tbl'\<rparr>)) = (s2, Some e)"
    by (simp add: invalidate_article_cache_steps)
  with h show "Article_save slugify cache_delete uf now a w = (w\<lparr>articles := tbl', cache := s2\<rparr>, Inl e)"
    by (simp add: Article_save_written post_save_def)
next
  assume h: "Model_save article_violates uf now (Article_fill slugify (articles w) a) (articles w) = Inr (a', tbl')
      \<and> cache_delete (''article:'' @ str_pk (pk a')) (cache w) = Inr s1
      \<and> cache_delete (''article:slug:'' @ slug a') s1 = Inr s2
      \<and> cache_delete ''articles:list:*'' s2 = Inr s3"
  then have "invalidate_article_cache cache_delete a' (cache (w\<lparr>articles := tbl'\<rparr>)) = (s3, None)"
    by (simp add: invalidate_article_cache_steps)
  with h show "Article_save slugify cache_delete uf now a w = (w\<lparr>articles := tbl', cache := s3\<rparr>, Inr a')"
    by (simp add: Article_save_written post_save_def)
next
  assume h: "Model_save comment_violates uf now c (comments w) = Inr (c', tbl'')
      \<and> cache_delete (''comment:'' @ str_pk (pk c')) (cache w) = Inl e"
  then have "invalidate_comment_cache cache_delete c' (cache (w\<lparr>comments := tbl''\<rparr>)) = (cache w, Some e)"
    by (simp add: invalidate_comment_cache_steps)
  with h show "Comment_save cache_delete uf now c w = (w\<lparr>comments := tbl''\<rparr>, Inl e)"
    by (simp add: Comment_save_written post_save_def)
next
  assume h: "Model_save comment_violates uf now c (comments w) = Inr (c', tbl'')
      \<and> cache_delete (''comment:'' @ str_pk (pk c')) (cache w) = Inr s1
      \<and> cache_delete (''article:'' @ str_nat (comment.article c') @ '':comments'') s1 = Inl e"
  then have "invalidate_comment_cache cache_delete c' (cache (w\<lparr>comments := tbl''\<rparr>)) = (s1, Some e)"
    by (simp add: invalidate_comment_cache_steps)
  with h show "Comment_save cache_delete uf now c w = (w\<lparr>comments := tbl'', cache := s1\<rparr>, Inl e)"
    by (simp add: Comment_save_written post_save_def)
next
  assume h: "Model_save comment_violates uf now c (comments w) = Inr (c', tbl'')
      \<and> cache_delete (''comment:'' @ str_pk (pk c')) (cache w) = Inr s1
      \<and> cache_delete (''article:'' @ str_nat (comment.article c') @ '':comments'') s1 = Inr s2"
  then have "invalidate_comment_cache cache_delete c' (cache (w\<lparr>comments := tbl''\<rparr>)) = (s2, None)"
    by (simp add: invalidate_comment_cache_steps)
  with h show "Comment_save cache_delete uf now c w = (w\<lparr>comments := tbl'', cache := s2\<rparr>, Inr c')"
    by (simp add: Comment_save_written post_save_def)
next
  show "soft_delete (Article_save slugify cache_delete) now a w
       = Article_save slugify cache_delete (Some [''is_deleted'', ''deleted_at'']) now
           (a\<lparr>is_deleted := True, deleted_at := Some now\<rparr>) w"
    by (simp add: soft_delete_def)
next
  show "soft_delete (Comment_save cache_delete) now c w
       = Comment_save cache_delete (Some [''is_deleted'', ''deleted_at'']) now
           (c\<lparr>is_deleted := True, deleted_at := Some now\<rparr>) w"
    by (simp add: soft_delete_def)
qed

theorem C8_cache_errors_propagate_witness:
  "Model_save article_violates None 5
        (Article_fill slugify_spec (articles example_world) example_article) (articles example_world)
       = Inr (saved_article, [saved_article])
   \<and> Model_save comment_violates (Some [''is_deleted'', ''deleted_at'']) 50 deleted_comment
        (comments example_world)
       = Inr (deleted_comment, deleted_thread)
   \<and> unavailable_delete (''article:'' @ str_pk (pk saved_article)) (cache example_world)
       = Inl (CacheError ''unavailable'')
   \<and> failing_on [''article:slug:hello-world''] (''article:'' @ str_pk (pk saved_article)) (cache example_world)
       = Inr [''article:slug:hello-world'', ''comment:1'', ''article:1:comments'']
   \<and> failing_on [''article:slug:hello-world''] (''article:slug:'' @ slug saved_article)
        [''article:slug:hello-world'', ''comment:1'', ''article:1:comments'']
       = Inl (CacheError ''article:slug:hello-world'')
   \<and> failing_on [''articles:list:*''] (''article:'' @ str_pk (pk saved_article)) (cache example_world)
       = Inr [''article:slug:hello-world'', ''comment:1'', ''article:1:comments'']
   \<and> failing_on [''articles:list:*''] (''article:slug:'' @ slug saved_article)
        [''article:slug:hello-world'', ''comment:1'', ''article:1:comments'']
       = Inr [''comment:1'', ''article:1:comments'']
   \<and> failing_on [''articles:list:*''] ''articles:list:*'' [''comment:1'', ''article:1:comments'']
       = Inl (CacheError ''articles:list:*'')
   \<and> working_delete (''article:'' @ str_pk (pk saved_article)) (cache example_world)
       = Inr [''article:slug:hello-world'', ''comment:1'', ''article:1:comments'']
   \<and> working_delete (''article:slug:'' @ slug saved_article)
        [''article:slug:hello-world'', ''comment:1'', ''article:1:comments'']
       = Inr [''comment:1'', ''article:1:comments'']
   \<and> working_delete ''articles:list:*'' [''comment:1'', ''article:1:comments'']
       = Inr [''comment:1'', ''article:1:comments'']
   \<and> unavailable_delete (''comment:'' @ str_pk (pk deleted_comment)) (cache example_world)
       = Inl (CacheError ''unavailable'')
   \<and> failing_on [''article:1:comments''] (''comment:'' @ str_pk (pk deleted_comment)) (cache example_world)
       = Inr [''article:1'', ''article:slug:hello-world'', ''article:1:comments'']
   \<and> failing_on [''article:1:comments''] (''article:'' @ str_nat (comment.article deleted_comment) @ '':comments'')
        [''article:1'', ''article:slug:hello-world'', ''article:1:comments'']
       = Inl (CacheError ''article:1:comments'')
   \<and> working_delete (''comment:'' @ str_pk (pk deleted_comment)) (cache example_world)
       = Inr [''article:1'', ''article:slug:hello-world'', ''article:1:comments'']
   \<and> working_delete (''article:'' @ str_nat (comment.article deleted_comment) @ '':comments'')
        [''article:1'', ''article:slug:hello-world'', ''article:1:comments'']
       = Inr [''article:1'', ''article:slug:hello-world'']
   \<and> Article_save slugify_spec unavailable_delete None 5 example_article example_world
       = (example_world\<lparr>articles := [saved_article]\<rparr>, Inl (CacheError ''unavailable''))
   \<and> Article_save slugify_spec (failing_on [''article:slug:hello-world'']) None 5
        example_article example_world
       = (example_world\<lparr>articles := [saved_article],
            cache := [''article:slug:hello-world'', ''comment:1'', ''article:1:comments'']\<rparr>,
          Inl (CacheError ''article:slug:hello-world''))
   \<and> Article_save slugify_spec (failing_on [''articles:list:*'']) None 5
        example_article example_world
       = (example_world\<lparr>articles := [saved_article], cache := [''comment:1'', ''article:1:comments'']\<rparr>,
          Inl (CacheError ''articles:list:*''))
   \<and> Article_save slugify_spec working_delete None 5 example_article example_world
       = (example_world\<lparr>articles := [saved_article], cache := [''comment:1'', ''article:1:comments'']\<rparr>,
          Inr saved_article)
   \<and> soft_delete (Comment_save unavailable_delete) 50 example_comment example_world
       = (example_world\<lparr>comments := deleted_thread\<rparr>, Inl (CacheError ''unavailable''))
   \<and> soft_delete (Comment_save (failing_on [''article:1:comments''])) 50 example_comment
        example_world
       = (example_world\<lparr>comments := deleted_thread,
            cache := [''article:1'', ''article:slug:hello-world'', ''article:1:comments'']\<rparr>,
          Inl (CacheError ''article:1:comments''))
   \<and> soft_delete (Comment_save working_delete) 50 example_comment example_world
       = (example_world\<lparr>comments := deleted_thread, cache := [''article:1'', ''article:slug:hello-world'']\<rparr>,
          Inr deleted_comment)"
proof -
  have m: "Model_save article_violates None 5
        (Article_fill slugify_spec (articles example_world) example_article) (articles example_world)
       = Inr (saved_article, [saved_article])"
    by code_simp
  have mc: "Model_save comment_violates (Some [''is_deleted'', ''deleted_at'']) 50 deleted_comment
        (comments example_world)
       = Inr (deleted_comment, deleted_thread)"
    by code_simp
  have u1: "unavailable_delete (''article:'' @ str_pk (pk saved_article)) (cache example_world)
       = Inl (CacheError ''unavailable'')"
    by (simp add: unavailable_delete_def)
  have b1: "failing_on [''article:slug:hello-world''] (''article:'' @ str_pk (pk saved_article)) (cache example_world)
       = Inr [''article:slug:hello-world'', ''comment:1'', ''article:1:comments'']"
    by code_simp
  have b2: "failing_on [''article:slug:hello-world''] (''article:slug:'' @ slug saved_article)
        [''article:slug:hello-world'', ''comment:1'', ''article:1:comments'']
       = Inl (CacheError ''article:slug:hello-world'')"
    by code_simp
  have l1: "failing_on [''articles:list:*''] (''article:'' @ str_pk (pk saved_article)) (cache example_world)
       = Inr [''article:slug:hello-world'', ''comment:1'', ''article:1:comments'']"
    by code_simp
  have l2: "failing_on [''articles:list:*''] (''article:slug:'' @ slug saved_article)
        [''article:slug:hello-world'', ''comment:1'', ''article:1:comments'']
       = Inr [''comment:1'', ''article:1:comments'']"
    by code_simp
  have l3: "failing_on [''articles:list:*''] ''articles:list:*'' [''comment:1'', ''article:1:comments'']
       = Inl (CacheError ''articles:list:*'')"
    by code_simp
  have w1: "working_delete (''article:'' @ str_pk (pk saved_article)) (cache example_world)
       = Inr [''article:slug:hello-world'', ''comment:1'', ''article:1:comments'']"
    by code_simp
  have w2: "working_delete (''article:slug:'' @ slug saved_article)
        [''article:slug:hello-world'', ''comment:1'', ''article:1:comments'']
       = Inr [''comment:1'', ''article:1:comments'']"
    by code_simp
  have w3: "working_delete ''articles:list:*'' [''comment:1'', ''article:1:comments'']
       = Inr [''comment:1'', ''article:1:comments'']"
    by code_simp
  have cu1: "unavailable_delete (''comment:'' @ str_pk (pk deleted_comment)) (cache example_world)
       = Inl (CacheError ''unavailable'')"
    by (simp add: unavailable_delete_def)
  have cb1: "failing_on [''article:1:comments''] (''comment:'' @ str_pk (pk deleted_comment)) (cache example_world)
       = Inr [''article:1'', ''article:slug:hello-world'', ''article:1:comments'']"
    by code_simp
  have cb2: "failing_on [''article:1:comments''] (''article:'' @ str_nat (comment.article deleted_comment) @ '':comments'')
        [''article:1'', ''article:slug:hello-world'', ''article:1:comments'']
       = Inl (CacheError ''article:1:comments'')"
    by code_simp
  have cw1: "working_delete (''comment:'' @ str_pk (pk deleted_comment)) (cache example_world)
       = Inr [''article:1'', ''article:slug:hello-world'', ''article:1:comments'']"
    by code_simp
  have cw2: "working_delete (''article:'' @ str_nat (comment.article deleted_comment) @ '':comments'')
        [''article:1'', ''article:slug:hello-world'', ''article:1:comments'']
       = Inr [''article:1'', ''article:slug:hello-world'']"
    by code_simp
  from C8_cache_errors_propagate [where uf = None and now = 5 and slugify = slugify_spec and w = example_world
      and a = example_article and a' = saved_article and tbl' = "[saved_article]"
      and cache_delete = unavailable_delete and e = "CacheError ''unavailable''"]
    m u1
  have A1: "Article_save slugify_spec unavailable_delete None 5 example_article example_world
       = (example_world\<lparr>articles := [saved_article]\<rparr>, Inl (CacheError ''unavailable''))"
    by blast
  from C8_cache_errors_propagate [where uf = None and now = 5 and slugify = slugify_spec and w = example_world
      and a = example_article and a' = saved_article and tbl' = "[saved_article]"
      and cache_delete = "failing_on [''article:slug:hello-world'']"
      and e = "CacheError ''article:slug:hello-world''"
      and ?s1.0 = "[''article:slug:hello-world'', ''comment:1'', ''article:1:comments'']"]
    m b1 b2
  have A2: "Article_save slugify_spec (failing_on [''article:slug:hello-world'']) None 5
        example_article example_world
       = (example_world\<lparr>articles := [saved_article],
            cache := [''article:slug:hello-world'', ''comment:1'', ''article:1:comments'']\<rparr>,
          Inl (CacheError ''article:slug:hello-world''))"
    by blast
  from C8_cache_errors_propagate [where uf = None and now = 5 and slugify = slugify_spec and w = example_world
      and a = example_article and a' = saved_article and tbl' = "[saved_article]"
      and cache_delete = "failing_on [''articles:list:*'']" and e = "CacheError ''articles:list:*''"
      and ?s1.0 = "[''article:slug:hello-world'', ''comment:1'', ''article:1:comments'']"
      and ?s2.0 = "[''comment:1'', ''article:1:comments'']"]
    m l1 l2 l3
  have A3: "Article_save slugify_spec (failing_on [''articles:list:*'']) None 5
        example_article example_world
       = (example_world\<lparr>articles := [saved_article], cache := [''comment:1'', ''article:1:comments'']\<rparr>,
          Inl (CacheError ''articles:list:*''))"
    by blast
  from C8_cache_errors_propagate [where uf = None and now = 5 and slugify = slugify_spec and w = example_world
      and a = example_article and a' = saved_article and tbl' = "[saved_article]"
      and cache_delete = working_delete
      and ?s1.0 = "[''article:slug:hello-world'', ''comment:1'', ''article:1:comments'']"
      and ?s2.0 = "[''comment:1'', ''article:1:comments'']"
      and ?s3.0 = "[''comment:1'', ''article:1:comments'']"]
    m w1 w2 w3
  have A4: "Article_save slugify_spec working_delete None 5 example_article example_world
       = (example_world\<lparr>articles := [saved_article], cache := [''comment:1'', ''article:1:comments'']\<rparr>,
          Inr saved_article)"
    by blast
  from C8_cache_errors_propagate [where uf = "Some [''is_deleted'', ''deleted_at'']" and now = 50 and w = example_world
      and c = deleted_comment and c' = deleted_comment and tbl'' = deleted_thread
      and cache_delete = unavailable_delete and e = "CacheError ''unavailable''"]
    mc cu1
  have C1: "soft_delete (Comment_save unavailable_delete) 50 example_comment example_world
       = (example_world\<lparr>comments := deleted_thread\<rparr>, Inl (CacheError ''unavailable''))"
    by (simp add: soft_delete_def deleted_comment_def)
  from C8_cache_errors_propagate [where uf = "Some [''is_deleted'', ''deleted_at'']" and now = 50 and w = example_world
      and c = deleted_comment and c' = deleted_comment and tbl'' = deleted_thread
      and cache_delete = "failing_on [''article:1:comments'']"
      and e = "CacheError ''article:1:comments''"
      and ?s1.0 = "[''article:1'', ''article:slug:hello-world'', ''article:1:comments'']"]
    mc cb1 cb2
  have C2: "soft_delete (Comment_save (failing_on [''article:1:comments''])) 50 example_comment
        example_world
       = (example_world\<lparr>comments := deleted_thread,
            cache := [''article:1'', ''article:slug:hello-world'', ''article:1:comments'']\<rparr>,
          Inl (CacheError ''article:1:comments''))"
    by (simp add: soft_delete_def deleted_comment_def)
  from C8_cache_errors_propagate [where uf = "Some [''is_deleted'', ''deleted_at'']" and now = 50 and w = example_world
      and c = deleted_comment and c' = deleted_comment and tbl'' = deleted_thread
      and cache_delete = working_delete
      and ?s1.0 = "[''article:1'', ''article:slug:hello-world'', ''article:1:comments'']"
      and ?s2.0 = "[''article:1'', ''article:slug:hello-world'']"]
    mc cw1 cw2
  have C3: "soft_delete (Comment_save working_delete) 50 example_comment example_world
       = (example_world\<lparr>comments := deleted_thread, cache := [''article:1'', ''article:slug:hello-world'']\<rparr>,
          Inr deleted_comment)"
    by (simp add: soft_delete_def deleted_comment_def)
  from m mc u1 b1 b2 l1 l2 l3 w1 w2 w3 cu1 cb1 cb2 cw1 cw2 A1 A2 A3 A4 C1 C2 C3
  show ?thesis
    by (intro conjI)
qed

text \<open>
  C9, as the claim states it, fails for a title without alphanumeric characters: the
  normalized base is empty, the allocator returns the empty slug and the article is
  written with it.
\<close>

theorem C9_empty_base_counterexample:
  "slugify_spec (title (new_article ''!!!'' ''Some content here'')) = []
   \<and> generate_unique_slug slugify_spec (articles example_world)
        (new_article ''!!!'' ''Some content here'') = []
   \<and> Article_save slugify_spec working_delete None 5
         (new_article ''!!!'' ''Some content here'') example_world
       = (example_world\<lparr>articles := [example_article,
             (new_article ''!!!'' ''Some content here'')
               \<lparr>pk := Some 2, created_at := 5, updated_at := 5,
                excerpt := ''Some content here''\<rparr>]\<rparr>,
          Inr ((new_article ''!!!'' ''Some content here'')
               \<lparr>pk := Some 2, created_at := 5, updated_at := 5,
                excerpt := ''Some content here''\<rparr>))"
  by code_simp

text \<open>
  C9 (amended). Slug allocation never fails. For every title, with or without
  alphanumeric characters, saving an article without a slug (with a non-negative view
  count and a cache whose deletions succeed) writes the article with the allocated slug;
  when the normalized base is empty that slug is the empty string if no article has an
  empty slug, and \<open>-k\<close> for some \<open>k \<ge> 1\<close> otherwise.
\<close>

theorem C9_allocation_total:
  "slug self = [] \<and> 0 \<le> views_count self \<and> (\<forall>key c. \<exists>c'. cache_delete key c = Inr c') \<longrightarrow>
   (\<exists>w' self'. Article_save slugify cache_delete None now self w = (w', Inr self')
      \<and> self' \<in> set (articles w')
      \<and> slug self' = generate_unique_slug slugify (articles w) self
      \<and> (slugify (title self) = [] \<and> [] \<notin> slug ` set (articles w) \<longrightarrow> slug self' = [])
      \<and> (slugify (title self) = [] \<and> [] \<in> slug ` set (articles w) \<longrightarrow>
            (\<exists>k \<ge> 1. slug self' = ''-'' @ str_nat k)))"
proof
  assume h: "slug self = [] \<and> 0 \<le> views_count self \<and> (\<forall>key c. \<exists>c'. cache_delete key c = Inr c')"
  let ?f = "Article_fill slugify (articles w) self"
  let ?s = "generate_unique_slug slugify (articles w) self"
  have fill: "slug ?f = ?s" using h by (simp add: Article_fill_slug)
  have spec: "?s \<notin> slug ` set (articles w)"
    using generate_unique_slug_spec [of "articles w" slugify self] by (simp add: slug_exists_iff)
  have nv: "\<not> article_violates (articles w) (?f\<lparr>updated_at := now, created_at := c, pk := p\<rparr>)" for c p
  proof -
    have "slug r \<noteq> ?s" if "r \<in> set (articles w)" for r
      using spec that by force
    with h fill show ?thesis
      by (auto simp: article_violates_def Article_fill_keeps)
  qed
  from Model_save_full_succeeds [where violates = article_violates and tbl = "articles w"
      and self = ?f and now = now, OF nv]
  obtain a tbl' where m: "Model_save article_violates None now ?f (articles w) = Inr (a, tbl')"
    by blast
  from h delete_keys_total [of cache_delete "article_cache_keys a" "cache (w\<lparr>articles := tbl'\<rparr>)"]
  have "\<exists>c'. invalidate_article_cache cache_delete a (cache (w\<lparr>articles := tbl'\<rparr>)) = (c', None)"
    by (simp add: invalidate_article_cache_def)
  from post_save_total [of "invalidate_article_cache cache_delete" a
      "w\<lparr>articles := tbl'\<rparr>", OF this] obtain c' where
    "post_save (invalidate_article_cache cache_delete) a (w\<lparr>articles := tbl'\<rparr>)
       = (w\<lparr>articles := tbl', cache := c'\<rparr>, Inr a)"
    by auto
  with m have run: "Article_save slugify cache_delete None now self w
       = (w\<lparr>articles := tbl', cache := c'\<rparr>, Inr a)"
    by (simp add: Article_save_def)
  from Article_save_Inr(1) [OF run] fill have sl: "slug a = ?s" by auto
  from Article_save_Inr(2) [OF run] have mem: "a \<in> set (articles (w\<lparr>articles := tbl', cache := c'\<rparr>))" .
  have e1: "slugify (title self) = [] \<and> [] \<notin> slug ` set (articles w) \<longrightarrow> ?s = []"
    using generate_unique_slug_spec [of "articles w" slugify self] by (auto simp: slug_exists_iff)
  have e2: "slugify (title self) = [] \<and> [] \<in> slug ` set (articles w) \<longrightarrow>
              (\<exists>k \<ge> 1. ?s = ''-'' @ str_nat k)"
    using generate_unique_slug_spec [of "articles w" slugify self] by (auto simp: slug_exists_iff)
  from run mem sl e1 e2
  show "\<exists>w' self'. Article_save slugify cache_delete None now self w = (w', Inr self')
      \<and> self' \<in> set (articles w')
      \<and> slug self' = ?s
      \<and> (slugify (title self) = [] \<and> [] \<notin> slug ` set (articles w) \<longrightarrow> slug self' = [])
      \<and> (slugify (title self) = [] \<and> [] \<in> slug ` set (articles w) \<longrightarrow>
            (\<exists>k \<ge> 1. slug self' = ''-'' @ str_nat k))"
    by (intro exI [of _ "w\<lparr>articles := tbl', cache := c'\<rparr>"] exI [of _ a]) simp
qed

theorem C9_allocation_total_witness:
  "slug (new_article ''!!!'' ''Some content here'') = []
   \<and> 0 \<le> views_count (new_article ''!!!'' ''Some content here'')
   \<and> (\<forall>key c. \<exists>c'. working_delete key c = Inr c')
   \<and> slugify_spec (title (new_article ''!!!'' ''Some content here'')) = []
   \<and> [] \<notin> slug ` set (articles example_world)
   \<and> (\<exists>w' self'. Article_save slugify_spec working_delete None 5
                       (new_article ''!!!'' ''Some content here'') example_world = (w', Inr self')
          \<and> self' \<in> set (articles w') \<and> slug self' = [])"
proof -
  have pre: "slug (new_article ''!!!'' ''Some content here'') = []
      \<and> 0 \<le> views_count (new_article ''!!!'' ''Some content here'')"
    by (simp add: new_article_def)
  have tot: "\<forall>key c. \<exists>c'. working_delete key c = Inr c'"
    by (simp add: working_delete_def)
  have base: "slugify_spec (title (new_article ''!!!'' ''Some content here'')) = []"
    by code_simp
  have unused: "[] \<notin> slug ` set (articles example_world)"
    by (simp add: example_world_def example_article_def)
  from C9_allocation_total [of "new_article ''!!!'' ''Some content here''" working_delete
      slugify_spec 5 example_world] pre tot base unused
  show ?thesis by auto
qed

text \<open>
  C10. On a table whose titles have at least 3 characters (the length the field's
  validator and \<open>validate_title\<close> itself enforce on every write), \<open>validate_title\<close>
  raises the duplicate-title error if and only if some article with
  \<open>is_deleted = False\<close>, other than the article being updated, has a case-insensitively
  equal title. In particular the title of a soft-deleted article that no active article
  carries is accepted verbatim for a new article.
\<close>

theorem C10_validate_title:
  "(\<forall>a \<in> set tbl. 3 \<le> length (title a)) \<longrightarrow>
     ((validate_title tbl inst val = Inl (ValidationError title_duplicate))
        = (\<exists>a \<in> set tbl. is_deleted a = False \<and> iexact (title a) val
             \<and> (\<forall>i. inst = Some i \<longrightarrow> pk a \<noteq> pk i)))
     \<and> (\<forall>d \<in> set tbl. is_deleted d = True
            \<and> (\<forall>a \<in> set tbl. iexact (title a) (title d) \<longrightarrow> is_deleted a = True) \<longrightarrow>
          validate_title tbl None (title d) = Inr (title d))"
proof
  assume long: "\<forall>a \<in> set tbl. 3 \<le> length (title a)"
  let ?dup = "\<exists>a \<in> set tbl. is_deleted a = False \<and> iexact (title a) val
             \<and> (\<forall>i. inst = Some i \<longrightarrow> pk a \<noteq> pk i)"
  have iff: "(validate_title tbl inst val = Inl (ValidationError title_duplicate)) = ?dup"
  proof (cases "length val < 3")
    case True
    have none: "\<not> ?dup"
    proof
      assume ?dup
      then obtain a where a: "a \<in> set tbl" and e: "iexact (title a) val" by blast
      from long a have "3 \<le> length (title a)" by (rule bspec)
      with iexact_length [OF e] True show False by simp
    qed
    from validate_title_short [OF True, of tbl inst] title_messages_differ
    have "validate_title tbl inst val \<noteq> Inl (ValidationError title_duplicate)"
      by simp
    with none show ?thesis by simp
  next
    case False
    show ?thesis
      unfolding validate_title_long [OF False] by simp
  qed
  have reuse: "validate_title tbl None (title d) = Inr (title d)"
    if d: "d \<in> set tbl"
      and del: "is_deleted d = True
            \<and> (\<forall>a \<in> set tbl. iexact (title a) (title d) \<longrightarrow> is_deleted a = True)" for d
  proof -
    from long d have "3 \<le> length (title d)" by (rule bspec)
    then have nshort: "\<not> length (title d) < 3" by simp
    have "\<not> (\<exists>a \<in> set tbl. is_deleted a = False \<and> iexact (title a) (title d)
             \<and> (\<forall>i. (None :: article option) = Some i \<longrightarrow> pk a \<noteq> pk i))"
    proof
      assume "\<exists>a \<in> set tbl. is_deleted a = False \<and> iexact (title a) (title d)
             \<and> (\<forall>i. (None :: article option) = Some i \<longrightarrow> pk a \<noteq> pk i)"
      then obtain a where a: "a \<in> set tbl" "is_deleted a = False" "iexact (title a) (title d)"
        by blast
      from del a(1) a(3) have "is_deleted a = True" by blast
      with a(2) show False by simp
    qed
    then show ?thesis
      unfolding validate_title_long [OF nshort] by (simp only: if_False)
  qed
  show "((validate_title tbl inst val = Inl (ValidationError title_duplicate)) = ?dup)
     \<and> (\<forall>d \<in> set tbl. is_deleted d = True
            \<and> (\<forall>a \<in> set tbl. iexact (title a) (title d) \<longrightarrow> is_deleted a = True) \<longrightarrow>
          validate_title tbl None (title d) = Inr (title d))"
  proof (intro conjI ballI impI)
    show "(validate_title tbl inst val = Inl (ValidationError title_duplicate)) = ?dup"
      by (rule iff)
  next
    fix d assume "d \<in> set tbl" and "is_deleted d = True
            \<and> (\<forall>a \<in> set tbl. iexact (title a) (title d) \<longrightarrow> is_deleted a = True)"
    then show "validate_title tbl None (title d) = Inr (title d)"
      by (rule reuse)
  qed
qed

theorem C10_validate_title_witness:
  "3 \<le> length (title example_article)
   \<and> is_deleted example_article = False
   \<and> iexact (title example_article) ''hello world!''
   \<and> validate_title [example_article] None ''hello world!''
        = Inl (ValidationError title_duplicate)
   \<and> validate_title [example_article] (Some example_article) ''hello world!''
        \<noteq> Inl (ValidationError title_duplicate)
   \<and> validate_title [example_article] None ''Hi'' \<noteq> Inl (ValidationError title_duplicate)
   \<and> is_deleted (example_article\<lparr>is_deleted := True, deleted_at := Some 30\<rparr>) = True
   \<and> title (example_article\<lparr>is_deleted := True, deleted_at := Some 30\<rparr>) = ''Hello World!''
   \<and> validate_title [example_article\<lparr>is_deleted := True, deleted_at := Some 30\<rparr>] None
        ''Hello World!'' = Inr ''Hello World!''"
proof -
  let ?d = "example_article\<lparr>is_deleted := True, deleted_at := Some 30\<rparr>"
  have l: "3 \<le> length (title example_article)"
    by (simp add: example_article_def)
  have long: "\<forall>a \<in> set [example_article]. 3 \<le> length (title a)"
    using l by simp
  have long_d: "\<forall>a \<in> set [?d]. 3 \<le> length (title a)"
    using l by simp
  have act: "is_deleted example_article = False"
    by (simp add: example_article_def)
  have ieq: "iexact (title example_article) ''hello world!''"
    by (simp add: example_article_def) code_simp
  have td: "title ?d = ''Hello World!''"
    by (simp add: example_article_def)
  have dd: "is_deleted ?d = True"
    by simp
  have dup: "validate_title [example_article] None ''hello world!''
        = Inl (ValidationError title_duplicate)"
  proof -
    have "\<exists>a \<in> set [example_article]. is_deleted a = False \<and> iexact (title a) ''hello world!''
             \<and> (\<forall>i. (None :: article option) = Some i \<longrightarrow> pk a \<noteq> pk i)"
      using act ieq by simp
    with C10_validate_title [of "[example_article]" None "''hello world!''", THEN mp, OF long,
        THEN conjunct1]
    show ?thesis by (rule iffD2)
  qed
  have own: "validate_title [example_article] (Some example_article) ''hello world!''
        \<noteq> Inl (ValidationError title_duplicate)"
  proof
    assume "validate_title [example_article] (Some example_article) ''hello world!''
        = Inl (ValidationError title_duplicate)"
    with C10_validate_title [of "[example_article]" "Some example_article" "''hello world!''",
        THEN mp, OF long, THEN conjunct1]
    have "\<exists>a \<in> set [example_article]. is_deleted a = False \<and> iexact (title a) ''hello world!''
             \<and> (\<forall>i. Some example_article = Some i \<longrightarrow> pk a \<noteq> pk i)"
      by (rule iffD1)
    then show False by simp
  qed
  have short: "validate_title [example_article] None ''Hi'' \<noteq> Inl (ValidationError title_duplicate)"
  proof
    assume "validate_title [example_article] None ''Hi'' = Inl (ValidationError title_duplicate)"
    with C10_validate_title [of "[example_article]" None "''Hi''", THEN mp, OF long, THEN conjunct1]
    have "\<exists>a \<in> set [example_article]. is_deleted a = False \<and> iexact (title a) ''Hi''
             \<and> (\<forall>i. (None :: article option) = Some i \<longrightarrow> pk a \<noteq> pk i)"
      by (rule iffD1)
    then have "iexact (title example_article) ''Hi''" by simp
    from iexact_length [OF this] show False by (simp add: example_article_def)
  qed
  have reuse: "validate_title [?d] None ''Hello World!'' = Inr ''Hello World!''"
  proof -
    have pre: "is_deleted ?d = True
            \<and> (\<forall>a \<in> set [?d]. iexact (title a) (title ?d) \<longrightarrow> is_deleted a = True)"
      by simp
    have "?d \<in> set [?d]" by simp
    from C10_validate_title [of "[?d]" None "''x''", THEN mp, OF long_d, THEN conjunct2,
        THEN bspec, OF this, THEN mp, OF pre]
    show ?thesis unfolding td .
  qed
  from l act ieq dup own short dd td reuse show ?thesis
    by (intro conjI)
qed

end
